theory Spec2Isabelle
  imports Main "HOL-Library.Word"
begin

unbundle bit_operations_syntax

section \<open>The lug parsing machine (lug/lug.hpp)\<close>

text \<open>
  A shallow embedding of the instruction format, the semantics log and the bytecode
  interpreter \<^verbatim>\<open>parser::parse\<close> of lug/lug.hpp, followed by the part of the combinator
  encoder that the statements below need.

  Conventions.
  \<^item> \<^verbatim>\<open>std::size_t\<close> is a 64-bit word: \<open>+\<close> and \<open>-\<close> wrap, \<open><\<close> is unsigned.
    \<^verbatim>\<open>std::ptrdiff_t\<close> (the program counter) and the \<^verbatim>\<open>int\<close> offsets are \<open>int\<close>: an
    instruction is only ever fetched at an index inside the program, and an offset is a
    32-bit value, so the program counter cannot overflow.
  \<^item> A \<^verbatim>\<open>std::vector\<close> used as a stack is a list whose head is \<^verbatim>\<open>back()\<close>, the newest
    element. The response log and the program are lists in index order.
  \<^item> A data member \<^verbatim>\<open>name_\<close> is written \<open>name'\<close>.
  \<^item> A C++ exception is a value \<open>Inl e\<close>. Behaviour the language leaves undefined
    (indexing a vector out of range, \<^verbatim>\<open>pop_back\<close> or \<^verbatim>\<open>back\<close> on an empty vector, an
    iterator past the end) is the value \<open>Inl undefined_behaviour\<close>.
\<close>

subsection \<open>Errors\<close>

datatype lug_error =
    program_limit_error | resource_limit_error
  | reenterant_parse_error | reenterant_read_error
  | bad_string_expression | bad_character_class
  | bad_grammar | bad_opcode

datatype raised =
    lug lug_error         \<comment> \<open>an exception of the library's own hierarchy\<close>
  | std_out_of_range      \<comment> \<open>thrown by \<^verbatim>\<open>std::string::compare\<close> and \<^verbatim>\<open>substr\<close>\<close>
  | other_exception       \<comment> \<open>an exception of any other type, thrown by user code\<close>
  | undefined_behaviour

type_synonym size_t = "64 word"

subsection \<open>Instructions and programs\<close>

datatype opcode =
    op_match | op_match_any | op_match_class | op_match_range
  | op_choice | op_commit | op_jump | op_call
  | op_ret | op_fail | op_accept | op_newline
  | op_predicate | op_action | op_begin_capture | op_end_capture

text \<open>The enumerators in declaration order, that is by their value 0 to 15.\<close>

definition opcodes :: "opcode list" where
  "opcodes = [op_match, op_match_any, op_match_class, op_match_range,
              op_choice, op_commit, op_jump, op_call,
              op_ret, op_fail, op_accept, op_newline,
              op_predicate, op_action, op_begin_capture, op_end_capture]"

definition opcode_of :: "8 word \<Rightarrow> opcode option" where
  "opcode_of b = (if unat b < length opcodes then Some (opcodes ! unat b) else None)"

fun opcode_byte :: "opcode \<Rightarrow> 8 word" where
  "opcode_byte op_match = 0" | "opcode_byte op_match_any = 1"
| "opcode_byte op_match_class = 2" | "opcode_byte op_match_range = 3"
| "opcode_byte op_choice = 4" | "opcode_byte op_commit = 5"
| "opcode_byte op_jump = 6" | "opcode_byte op_call = 7"
| "opcode_byte op_ret = 8" | "opcode_byte op_fail = 9"
| "opcode_byte op_accept = 10" | "opcode_byte op_newline = 11"
| "opcode_byte op_predicate = 12" | "opcode_byte op_action = 13"
| "opcode_byte op_begin_capture = 14" | "opcode_byte op_end_capture = 15"

text \<open>\<^verbatim>\<open>enum class altcode\<close> and \<^verbatim>\<open>enum class operands\<close>.\<close>

definition accept_final :: "8 word" where "accept_final = 1"
definition commit_back :: "8 word" where "commit_back = 1"
definition commit_partial :: "8 word" where "commit_partial = 2"
definition match_class_ptype :: "8 word" where "match_class_ptype = 1"
definition match_class_gctype :: "8 word" where "match_class_gctype = 2"
definition match_class_sctype :: "8 word" where "match_class_sctype = 3"

definition operands_none :: "8 word" where "operands_none = 0"
definition operands_off :: "8 word" where "operands_off = 0x40"
definition operands_str :: "8 word" where "operands_str = 0x80"
definition operands_altcode :: "8 word" where "operands_altcode = 0x3f"

definition to_operands :: "8 word \<Rightarrow> 8 word" where
  "to_operands alt = alt AND operands_altcode"

text \<open>
  \<^verbatim>\<open>union instruction\<close>: a prefix \<^verbatim>\<open>{op, aux, val}\<close>, an offset or four bytes of string
  data. The union is tagged here; reading a word through another member than the one it
  was written by is undefined.
\<close>

datatype instruction =
    prefix "8 word" "8 word" "16 word"
  | offset int
  | str4 char char char char

fun str_bytes :: "instruction list \<Rightarrow> (raised + string)" where
  "str_bytes [] = Inr []"
| "str_bytes (str4 a b c d # ws) =
     (case str_bytes ws of Inl e \<Rightarrow> Inl e | Inr bs \<Rightarrow> Inr (a # b # c # d # bs))"
| "str_bytes (_ # ws) = Inl undefined_behaviour"

text \<open>
  \<^verbatim>\<open>instruction::decode\<close>. The result is the tuple \<^verbatim>\<open>(op, alt, imm, off, str)\<close> together
  with the advanced program counter.
\<close>

type_synonym decoded = "8 word \<times> 8 word \<times> size_t \<times> int \<times> string"

definition decode :: "instruction list \<Rightarrow> int \<Rightarrow> raised + (decoded \<times> int)" where
  "decode code pc0 =
    (if pc0 < 0 \<or> int (length code) \<le> pc0 then Inl undefined_behaviour
     else case code ! nat pc0 of
       prefix opb auxb valw \<Rightarrow>
        (let pc1 = pc0 + 1 in
         case (if auxb AND operands_off \<noteq> operands_none
               then (if int (length code) \<le> pc1 then Inl undefined_behaviour
                     else case code ! nat pc1 of
                            offset n \<Rightarrow> Inr (n, pc1 + 1)
                          | _ \<Rightarrow> Inl undefined_behaviour)
               else Inr (0, pc1)) of
           Inl e \<Rightarrow> Inl e
         | Inr (off, pc2) \<Rightarrow>
            (if auxb AND operands_str \<noteq> operands_none
             then (let len = unat (valw AND 0xff) + 1;
                       nwords = (unat (valw AND 0xff) + 4) div 4
                   in if int (length code) < pc2 + int nwords then Inl undefined_behaviour
                      else case str_bytes (take nwords (drop (nat pc2) code)) of
                             Inl e \<Rightarrow> Inl e
                           | Inr bs \<Rightarrow>
                               Inr ((opb, auxb AND operands_altcode,
                                     ucast (drop_bit 8 valw) + 1, off, take len bs),
                                    pc2 + int nwords))
             else Inr ((opb, auxb AND operands_altcode, ucast valw, off, []), pc2)))
     | _ \<Rightarrow> Inl undefined_behaviour)"

text \<open>\<^verbatim>\<open>instruction::length\<close>.\<close>

definition instruction_length :: "8 word \<Rightarrow> 16 word \<Rightarrow> nat" where
  "instruction_length auxb valw =
     1 + (if auxb AND operands_off \<noteq> operands_none then 1 else 0)
       + (if auxb AND operands_str \<noteq> operands_none
          then unat (drop_bit 2 (valw AND 0xff)) + 1 else 0)"

subsection \<open>Semantic callbacks\<close>

text \<open>
  The callbacks are user code. What the machine can observe of them is modelled, no more:
  \<^item> an action or a capture callback returns, having called \<^verbatim>\<open>semantics::escape\<close> or not,
    or throws (a capture callback may decide this from the captured text); the attribute
    stack of \<^verbatim>\<open>std::any\<close> values is user data and is left out;
  \<^item> a predicate reads the input buffer and the saved registers and either throws or
    returns its verdict; it may write the registers back through
    \<^verbatim>\<open>parser::registers()\<close>, append input with \<^verbatim>\<open>parser::enqueue\<close> and push input sources
    with \<^verbatim>\<open>parser::push_source\<close> (the newest first). A predicate that calls \<^verbatim>\<open>parse()\<close> on
    the parser it is given throws: the sentinel of the inner call raises
    \<^verbatim>\<open>reenterant_parse_error\<close>, which leaves through the predicate;
  \<^item> an input source is the finite script of its replies, each a \<^verbatim>\<open>(text, more)\<close> or an
    exception; a source whose script has run out replies with no text and \<^verbatim>\<open>false\<close>. A
    source that calls back into the parser while it is read (\<^verbatim>\<open>push_source\<close>, or anything
    that reads) gets \<^verbatim>\<open>reenterant_read_error\<close>, which leaves through the source. A source
    that replies with no text and \<^verbatim>\<open>true\<close> for ever, which keeps \<^verbatim>\<open>read_more\<close> in its loop, has
    no script and is left out.
\<close>

record parser_registers =
  reg_ir :: size_t
  reg_cr :: size_t
  reg_lr :: size_t
  reg_rc :: size_t
  reg_pc :: int
  reg_fc :: size_t

datatype user_effect = returns | calls_escape | throws raised

type_synonym semantic_action = user_effect
type_synonym semantic_capture = "string \<Rightarrow> user_effect"
type_synonym source = "(raised + string \<times> bool) list"
type_synonym semantic_predicate =
  "string \<Rightarrow> parser_registers \<Rightarrow> raised + bool \<times> parser_registers \<times> string \<times> source list"

record program =
  instructions :: "instruction list"
  predicates :: "semantic_predicate list"
  actions :: "semantic_action list"
  captures :: "semantic_capture list"
  matches_eps :: bool

subsection \<open>The semantics object\<close>

record syntax_position =
  column :: size_t
  line :: size_t

record syntax_range =
  range_index :: size_t
  range_size :: size_t
  range_start :: syntax_position
  range_end :: syntax_position

record semantic_response =
  call_depth :: "16 word"
  action_index :: "16 word"
  capture_index :: "32 word"

text \<open>
  What the semantics object invoked, in order: the user callbacks and the virtual hooks
  \<^verbatim>\<open>on_accept_begin\<close>, \<^verbatim>\<open>on_accept_end\<close> and \<^verbatim>\<open>on_clear\<close>. This log is the observable
  output of a parse.
\<close>

datatype invocation =
    on_accept_begin
  | invoked_action nat
  | invoked_capture nat string syntax_position syntax_position
  | on_accept_end
  | on_clear

record semantics =
  match' :: string
  prune_depth' :: "16 word"
  call_depth' :: "16 word"
  responses' :: "semantic_response list"
  captures' :: "syntax_range list"
  invoked :: "invocation list"

definition pop_responses_after :: "size_t \<Rightarrow> semantics \<Rightarrow> semantics" where
  "pop_responses_after n s =
     (if unat n < length (responses' s)
      then s\<lparr>responses' := take (unat n) (responses' s)\<rparr> else s)"

definition drop_responses_after ::
  "size_t \<Rightarrow> semantics \<Rightarrow> semantic_response list \<times> semantics" where
  "drop_responses_after n s =
     (if unat n < length (responses' s)
      then (drop (unat n) (responses' s), s\<lparr>responses' := take (unat n) (responses' s)\<rparr>)
      else ([], s))"

definition restore_responses_after ::
  "size_t \<Rightarrow> semantic_response list \<Rightarrow> semantics \<Rightarrow> size_t \<times> semantics" where
  "restore_responses_after n restore s =
     (let s1 = pop_responses_after n s;
          s2 = s1\<lparr>responses' := responses' s1 @ restore\<rparr>
      in (of_nat (length (responses' s2)), s2))"

definition push_response ::
  "nat \<Rightarrow> size_t \<Rightarrow> 32 word \<Rightarrow> semantics \<Rightarrow> size_t \<times> semantics" where
  "push_response depth ai ci s =
     (let s1 = s\<lparr>responses' := responses' s @
                 [\<lparr>call_depth = of_nat depth, action_index = ucast ai, capture_index = ci\<rparr>]\<rparr>
      in (of_nat (length (responses' s1)), s1))"

definition push_capture_response ::
  "nat \<Rightarrow> size_t \<Rightarrow> syntax_range \<Rightarrow> semantics \<Rightarrow> size_t \<times> semantics" where
  "push_capture_response depth ai rng s =
     (let s1 = s\<lparr>captures' := captures' s @ [rng]\<rparr>
      in push_response depth ai (of_nat (length (captures' s1) - 1)) s1)"

definition clear :: "semantics \<Rightarrow> semantics" where
  "clear s = s\<lparr>match' := [], prune_depth' := - 1, call_depth' := 0, responses' := [],
               invoked := invoked s @ [on_clear]\<rparr>"

text \<open>
  The loop of \<^verbatim>\<open>semantics::accept\<close> over the response log. \<^verbatim>\<open>std::string_view::substr\<close>
  throws when the capture starts behind the end of the match, and an exception of a
  callback leaves the loop.
\<close>

definition after_callback ::
  "user_effect \<Rightarrow> invocation \<Rightarrow> semantics \<Rightarrow> raised + semantics" where
  "after_callback u i s =
     (let s1 = s\<lparr>invoked := invoked s @ [i]\<rparr>
      in case u of
           returns \<Rightarrow> Inr s1
         | calls_escape \<Rightarrow> Inr (s1\<lparr>prune_depth' := call_depth' s1\<rparr>)
         | throws x \<Rightarrow> Inl x)"

fun accept_responses ::
  "program \<Rightarrow> semantic_response list \<Rightarrow> semantics \<Rightarrow> raised + semantics" where
  "accept_responses P [] s = Inr s"
| "accept_responses P (r # rs) s =
     (if prune_depth' s \<le> call_depth r then accept_responses P rs s
      else
        let s1 = s\<lparr>prune_depth' := - 1, call_depth' := call_depth r\<rparr>;
            a = unat (action_index r)
        in if capture_index r < - 1
           then (if length (captures' s1) \<le> unat (capture_index r) then Inl undefined_behaviour
                 else let cap = captures' s1 ! unat (capture_index r)
                      in if length (captures P) \<le> a then Inl undefined_behaviour
                         else if length (match' s1) < unat (range_index cap)
                         then Inl std_out_of_range
                         else let txt = take (unat (range_size cap))
                                          (drop (unat (range_index cap)) (match' s1))
                              in case after_callback ((captures P ! a) txt)
                                        (invoked_capture a txt (range_start cap) (range_end cap))
                                        s1 of
                                   Inl e \<Rightarrow> Inl e
                                 | Inr s2 \<Rightarrow> accept_responses P rs s2)
           else (if length (actions P) \<le> a then Inl undefined_behaviour
                 else case after_callback (actions P ! a) (invoked_action a) s1 of
                        Inl e \<Rightarrow> Inl e
                      | Inr s2 \<Rightarrow> accept_responses P rs s2))"

definition semantics_accept :: "program \<Rightarrow> string \<Rightarrow> semantics \<Rightarrow> raised + semantics" where
  "semantics_accept P m s =
     (case accept_responses P (responses' s)
             (s\<lparr>match' := m, invoked := invoked s @ [on_accept_begin]\<rparr>) of
        Inl e \<Rightarrow> Inl e
      | Inr s1 \<Rightarrow> Inr (clear (s1\<lparr>invoked := invoked s1 @ [on_accept_end]\<rparr>)))"

subsection \<open>The parser object and the locals of \<^verbatim>\<open>parser::parse\<close>\<close>

datatype stack_frame_type = sf_backtrack | sf_call | sf_capture | sf_lrcall

record subject =
  subj_ir :: size_t
  subj_cr :: size_t
  subj_lr :: size_t

record lrmemo =
  sr :: subject
  sa :: subject
  rcr :: size_t
  pcr :: int
  pca :: int
  responses :: "semantic_response list"
  prec :: size_t

definition lrfailcode :: size_t where
  "lrfailcode = - 1"

text \<open>
  The data members of \<^verbatim>\<open>class parser\<close>, then the locals of \<^verbatim>\<open>parser::parse\<close>: the
  registers \<open>ir, cr, lr, rc, pc, fc\<close> and the flags \<open>result\<close> and \<open>done\<close> (written
  \<open>finished\<close>).
\<close>

record parser =
  input' :: string
  registers' :: parser_registers
  max_input' :: subject
  parsing' :: bool
  reading' :: bool
  cut_deferred' :: bool
  cut_frame' :: nat
  sources' :: "source list"
  stack_frames' :: "stack_frame_type list"
  backtrack_stack' :: "(size_t \<times> size_t \<times> size_t \<times> size_t \<times> int) list"
  call_stack' :: "int list"
  capture_stack' :: "subject list"
  lrmemo_stack' :: "lrmemo list"
  semantics' :: semantics
  ir :: size_t
  cr :: size_t
  lr :: size_t
  rc :: size_t
  pc :: int
  fc :: size_t
  result :: bool
  finished :: bool

subsection \<open>Reading input\<close>

text \<open>
  The loop of \<^verbatim>\<open>parser::read_more\<close>: pull from the newest source until one yields text
  or throws. Returns the text read, the input buffer and the remaining sources.
\<close>

fun sources_size :: "'a list list \<Rightarrow> nat" where
  "sources_size [] = 0"
| "sources_size (src # srcs) = Suc (length src + sources_size srcs)"

function read_sources ::
  "string \<Rightarrow> source list \<Rightarrow> raised + string \<times> string \<times> source list" where
  "read_sources inp [] = Inr ([], inp, [])"
| "read_sources inp ([] # srcs) = read_sources inp srcs"
| "read_sources inp ((Inl x # replies) # srcs) = Inl x"
| "read_sources inp ((Inr (txt, again) # replies) # srcs) =
     (let inp1 = inp @ txt;
          srcs1 = (if again then replies # srcs else srcs)
      in if txt = [] then read_sources inp1 srcs1 else Inr (txt, inp1, srcs1))"
  by pat_completeness auto
termination
  by (relation "measure (\<lambda>(inp, srcs). sources_size srcs)") auto

definition read_more :: "parser \<Rightarrow> raised + (bool \<times> parser)" where
  "read_more s =
     (if reading' s then Inl (lug reenterant_read_error)
      else case read_sources (input' s) (sources' s) of
             Inl x \<Rightarrow> Inl x
           | Inr (txt, inp, srcs) \<Rightarrow>
               Inr (txt \<noteq> [], s\<lparr>input' := inp, sources' := srcs, reading' := False\<rparr>))"

lemma read_sources_size:
  "read_sources inp srcs = Inr (txt, inp1, srcs1) \<Longrightarrow> txt \<noteq> [] \<Longrightarrow>
   sources_size srcs1 < sources_size srcs"
proof (induction inp srcs rule: read_sources.induct)
  case (1 inp)
  then show ?case by simp
next
  case (2 inp srcs)
  then show ?case by fastforce
next
  case (3 inp x replies srcs)
  then show ?case by simp
next
  case (4 inp txt' again replies srcs)
  then show ?case
    by (cases "txt' = []") (fastforce split: if_splits)+
qed

lemma read_more_size:
  "read_more s = Inr (True, s1) \<Longrightarrow> sources_size (sources' s1) < sources_size (sources' s)"
  by (auto simp: read_more_def split: if_splits sum.splits prod.splits dest: read_sources_size)

text \<open>\<^verbatim>\<open>parser::available(n, ir)\<close>; the subtraction wraps when \<open>ir\<close> is behind the end.\<close>

function available :: "size_t \<Rightarrow> size_t \<Rightarrow> parser \<Rightarrow> raised + (bool \<times> parser)" where
  "available n i s =
     (if n \<le> of_nat (length (input' s)) - i then Inr (True, s)
      else if i < of_nat (length (input' s)) then Inr (False, s)
      else case read_more s of
             Inl e \<Rightarrow> Inl e
           | Inr (again, s1) \<Rightarrow> if again then available n i s1 else Inr (False, s1))"
  by pat_completeness auto
termination
  by (relation "measure (\<lambda>(n, i, s). sources_size (sources' s))")
     (auto dest: read_more_size)

text \<open>The equation of \<open>available\<close> is applied by hand.\<close>

declare available.simps [simp del]


subsection \<open>Committing a cut and popping frames\<close>

definition save_registers :: "parser \<Rightarrow> parser" where
  "save_registers s =
     s\<lparr>registers' := \<lparr>reg_ir = ir s, reg_cr = cr s, reg_lr = lr s,
                       reg_rc = rc s, reg_pc = pc s, reg_fc = 0\<rparr>\<rparr>"

text \<open>\<^verbatim>\<open>parser::accept(ir, cr, lr, rc, pc)\<close>.\<close>

definition accept :: "program \<Rightarrow> parser \<Rightarrow> raised + parser" where
  "accept P s =
     (let s1 = save_registers s
      in case semantics_accept P (input' s1) (semantics' s1) of
           Inl e \<Rightarrow> Inl e
         | Inr sem \<Rightarrow>
             let s2 = s1\<lparr>semantics' := sem,
                        input' := drop (unat (ir s1)) (input' s1),
                        registers' := (registers' s1)\<lparr>reg_ir := 0, reg_rc := 0\<rparr>,
                        max_input' := (max_input' s1)\<lparr>subj_ir := 0\<rparr>,
                        cut_deferred' := False,
                        cut_frame' := length (stack_frames' s1)\<rparr>
             in Inr (s2\<lparr>ir := reg_ir (registers' s2), cr := reg_cr (registers' s2),
                        lr := reg_lr (registers' s2), rc := reg_rc (registers' s2),
                        pc := reg_pc (registers' s2)\<rparr>))"

text \<open>
  \<^verbatim>\<open>parser::pop_stack_frame(stack, args...)\<close>; the first argument names the typed stack
  the template is instantiated with. Only the instances for the capture stack and the
  memo stack (whose callers always pass the registers) can run a deferred accept.
\<close>

definition drop_frame :: "parser \<Rightarrow> parser" where
  "drop_frame s =
     s\<lparr>stack_frames' := tl (stack_frames' s),
       cut_frame' := min (cut_frame' s) (length (tl (stack_frames' s)))\<rparr>"

definition deferred_accept :: "program \<Rightarrow> parser \<Rightarrow> raised + parser" where
  "deferred_accept P s =
     (if cut_deferred' s \<and> capture_stack' s = [] \<and> lrmemo_stack' s = []
      then accept P s else Inr s)"

definition pop_stack_frame :: "program \<Rightarrow> stack_frame_type \<Rightarrow> parser \<Rightarrow> raised + parser" where
  "pop_stack_frame P which s =
     (if stack_frames' s = [] then Inl undefined_behaviour
      else case which of
        sf_backtrack \<Rightarrow>
          (if backtrack_stack' s = [] then Inl undefined_behaviour
           else Inr (drop_frame (s\<lparr>backtrack_stack' := tl (backtrack_stack' s)\<rparr>)))
      | sf_call \<Rightarrow>
          (if call_stack' s = [] then Inl undefined_behaviour
           else Inr (drop_frame (s\<lparr>call_stack' := tl (call_stack' s)\<rparr>)))
      | sf_capture \<Rightarrow>
          (if capture_stack' s = [] then Inl undefined_behaviour
           else deferred_accept P (drop_frame (s\<lparr>capture_stack' := tl (capture_stack' s)\<rparr>)))
      | sf_lrcall \<Rightarrow>
          (if lrmemo_stack' s = [] then Inl undefined_behaviour
           else deferred_accept P (drop_frame (s\<lparr>lrmemo_stack' := tl (lrmemo_stack' s)\<rparr>))))"

lemma accept_frames:
  "accept P s = Inr s1 \<Longrightarrow> stack_frames' s1 = stack_frames' s"
  by (auto simp: accept_def save_registers_def Let_def split: sum.splits)

lemma pop_stack_frame_frames:
  "pop_stack_frame P which s = Inr s1 \<Longrightarrow> stack_frames' s \<noteq> [] \<and> stack_frames' s1 = tl (stack_frames' s)"
  by (cases which)
     (auto simp: pop_stack_frame_def deferred_accept_def drop_frame_def
           split: if_splits dest: accept_frames)

subsection \<open>Failure propagation\<close>

text \<open>
  One turn of the loop \<^verbatim>\<open>for (++fc; fc > 0; --fc)\<close> below the test of \<^verbatim>\<open>cut_frame_\<close>:
  the switch over the newest frame.
\<close>

definition unwind_frame :: "program \<Rightarrow> parser \<Rightarrow> raised + parser" where
  "unwind_frame P s =
     (case hd (stack_frames' s) of
        sf_backtrack \<Rightarrow>
          (case backtrack_stack' s of
             [] \<Rightarrow> Inl undefined_behaviour
           | (i, c, l, r, p) # _ \<Rightarrow>
               pop_stack_frame P sf_backtrack (s\<lparr>ir := i, cr := c, lr := l, rc := r, pc := p\<rparr>))
      | sf_call \<Rightarrow>
          (case pop_stack_frame P sf_call s of
             Inl e \<Rightarrow> Inl e
           | Inr s1 \<Rightarrow> Inr (s1\<lparr>fc := fc s1 + 1\<rparr>))
      | sf_capture \<Rightarrow>
          (case pop_stack_frame P sf_capture s of
             Inl e \<Rightarrow> Inl e
           | Inr s1 \<Rightarrow> Inr (s1\<lparr>fc := fc s1 + 1\<rparr>))
      | sf_lrcall \<Rightarrow>
          (case lrmemo_stack' s of
             [] \<Rightarrow> Inl undefined_behaviour
           | memo # _ \<Rightarrow>
               if subj_ir (sa memo) \<noteq> lrfailcode
               then (case restore_responses_after (rcr memo) (responses memo) (semantics' s) of
                       (n, sem) \<Rightarrow>
                         pop_stack_frame P sf_lrcall
                           (s\<lparr>ir := subj_ir (sa memo), cr := subj_cr (sa memo),
                              lr := subj_lr (sa memo), pc := pcr memo,
                              rc := n, semantics' := sem\<rparr>))
               else pop_stack_frame P sf_lrcall (s\<lparr>fc := fc s + 1\<rparr>)))"

lemma unwind_frame_frames:
  "unwind_frame P s = Inr s1 \<Longrightarrow> stack_frames' s \<noteq> [] \<Longrightarrow>
   length (stack_frames' s1) < length (stack_frames' s)"
  by (cases "hd (stack_frames' s)")
     (auto simp: unwind_frame_def split: list.splits sum.splits prod.splits if_splits
           dest!: pop_stack_frame_frames)

function fail_loop :: "program \<Rightarrow> parser \<Rightarrow> raised + parser" where
  "fail_loop P s =
     (if 0 < fc s
      then (if length (stack_frames' s) \<le> cut_frame' s then Inr (s\<lparr>finished := True\<rparr>)
            else case unwind_frame P (s\<lparr>finished := False\<rparr>) of
                   Inl e \<Rightarrow> Inl e
                 | Inr s1 \<Rightarrow> fail_loop P (s1\<lparr>fc := fc s1 - 1\<rparr>))
      else Inr s)"
  by pat_completeness auto
termination
proof (relation "measure (\<lambda>(P, s). length (stack_frames' s))")
  show "wf (measure (\<lambda>(P, s). length (stack_frames' s)))" by simp
next
  fix P s s1
  assume "\<not> length (stack_frames' s) \<le> cut_frame' s"
     and u: "unwind_frame P (s\<lparr>finished := False\<rparr>) = Inr s1"
  then have "stack_frames' (s\<lparr>finished := False\<rparr>) \<noteq> []" by auto
  from unwind_frame_frames [OF u this]
  show "((P, s1\<lparr>fc := fc s1 - 1\<rparr>), (P, s)) \<in> measure (\<lambda>(P, s). length (stack_frames' s))"
    by simp
qed

text \<open>The equation of \<open>fail_loop\<close> is applied by hand.\<close>

declare fail_loop.simps [simp del]

text \<open>The code at the label \<^verbatim>\<open>failure\<close>.\<close>

definition note_max_input :: "parser \<Rightarrow> parser" where
  "note_max_input s =
     (if subj_ir (max_input' s) < ir s
      then s\<lparr>max_input' := \<lparr>subj_ir = ir s, subj_cr = cr s, subj_lr = lr s\<rparr>\<rparr> else s)"

definition failure :: "program \<Rightarrow> parser \<Rightarrow> raised + parser" where
  "failure P s =
     (let s1 = note_max_input s
      in case fail_loop P (s1\<lparr>fc := fc s1 + 1\<rparr>) of
           Inl e \<Rightarrow> Inl e
         | Inr s2 \<Rightarrow> Inr (s2\<lparr>semantics' := pop_responses_after (rc s2) (semantics' s2)\<rparr>))"


subsection \<open>UTF-8 and the Unicode database\<close>

text \<open>
  lug/utf8.hpp and lug/unicode.hpp are not part of the sources at hand. The functions the
  interpreter and the encoder call are parameters: iterators into the input are the
  rest of the input from \<open>ir\<close> on, a rune is its code, \<^verbatim>\<open>decode_rune\<close> returns the rune
  and the number of bytes up to \<^verbatim>\<open>next\<close>, and the queries on the record of a rune take
  the rune. \<^verbatim>\<open>sizeof_ptype\<close> and \<^verbatim>\<open>sizeof_gctype\<close> are the sizes that
  \<^verbatim>\<open>instruction::decode_constant\<close> checks the inline string against.
\<close>

record externals =
  size_of_first_rune :: "string \<Rightarrow> nat"
  decode_rune :: "string \<Rightarrow> nat \<times> nat"
  count_runes :: "string \<Rightarrow> nat"
  is_lead :: "char \<Rightarrow> bool"
  sizeof_ptype :: nat
  sizeof_gctype :: nat
  any_of_ptype :: "nat \<Rightarrow> string \<Rightarrow> bool"
  any_of_gctype :: "nat \<Rightarrow> string \<Rightarrow> bool"
  script_is :: "nat \<Rightarrow> size_t \<Rightarrow> bool"
  any_of_ctype :: "nat \<Rightarrow> size_t \<Rightarrow> bool"

subsection \<open>The instructions\<close>

text \<open>
  Each function is one case of the switch in \<^verbatim>\<open>parser::parse\<close>, run on the state in
  which \<open>pc\<close> is already behind the decoded instruction.
\<close>

text \<open>\<^verbatim>\<open>std::string::compare\<close> of two byte strings, as a sign.\<close>

fun compare_bytes :: "string \<Rightarrow> string \<Rightarrow> int" where
  "compare_bytes [] [] = 0"
| "compare_bytes [] (y # ys) = - 1"
| "compare_bytes (x # xs) [] = 1"
| "compare_bytes (x # xs) (y # ys) =
     (if (of_char x :: nat) < of_char y then - 1
      else if (of_char y :: nat) < of_char x then 1
      else compare_bytes xs ys)"

definition exec_match :: "program \<Rightarrow> size_t \<Rightarrow> string \<Rightarrow> parser \<Rightarrow> raised + parser" where
  "exec_match P imm str s =
     (if str \<noteq> []
      then case available (of_nat (length str)) (ir s) s of
             Inl e \<Rightarrow> Inl e
           | Inr (ok, s1) \<Rightarrow>
               if \<not> ok then failure P s1
               else if length (input' s1) < unat (ir s1) then Inl std_out_of_range
               else if take (length str) (drop (unat (ir s1)) (input' s1)) \<noteq> str
               then failure P s1
               else Inr (s1\<lparr>ir := ir s1 + of_nat (length str), cr := cr s1 + imm\<rparr>)
      else Inr s)"

definition exec_match_any :: "externals \<Rightarrow> program \<Rightarrow> parser \<Rightarrow> raised + parser" where
  "exec_match_any X P s =
     (case available 1 (ir s) s of
        Inl e \<Rightarrow> Inl e
      | Inr (ok, s1) \<Rightarrow>
          if \<not> ok then failure P s1
          else if length (input' s1) < unat (ir s1) then Inl undefined_behaviour
          else Inr (s1\<lparr>ir := ir s1 + of_nat (size_of_first_rune X (drop (unat (ir s1)) (input' s1))),
                       cr := cr s1 + 1\<rparr>))"

text \<open>The inner switch of \<^verbatim>\<open>match_class\<close> over the altcode: the value of \<^verbatim>\<open>match\<close>.\<close>

definition class_query ::
  "externals \<Rightarrow> 8 word \<Rightarrow> size_t \<Rightarrow> string \<Rightarrow> nat \<Rightarrow> raised + bool" where
  "class_query X alt imm str rune =
     (if alt = match_class_ptype
      then (if length str < sizeof_ptype X then Inl (lug bad_opcode)
            else Inr (any_of_ptype X rune (take (sizeof_ptype X) str)))
      else if alt = match_class_gctype
      then (if length str < sizeof_gctype X then Inl (lug bad_opcode)
            else Inr (any_of_gctype X rune (take (sizeof_gctype X) str)))
      else if alt = match_class_sctype
      then Inr (script_is X rune imm)
      else Inr (any_of_ctype X rune imm))"

definition exec_match_class ::
  "externals \<Rightarrow> program \<Rightarrow> 8 word \<Rightarrow> size_t \<Rightarrow> string \<Rightarrow> parser \<Rightarrow> raised + parser" where
  "exec_match_class X P alt imm str s =
     (case available 1 (ir s) s of
        Inl e \<Rightarrow> Inl e
      | Inr (ok, s1) \<Rightarrow>
          if \<not> ok then failure P s1
          else if length (input' s1) < unat (ir s1) then Inl undefined_behaviour
          else case decode_rune X (drop (unat (ir s1)) (input' s1)) of
                 (rune, n) \<Rightarrow>
                   (case class_query X alt imm str rune of
                      Inl e \<Rightarrow> Inl e
                    | Inr matched \<Rightarrow>
                        if matched then failure P s1
                        else Inr (s1\<lparr>ir := ir s1 + of_nat n, cr := cr s1 + 1\<rparr>)))"

definition exec_match_range ::
  "externals \<Rightarrow> program \<Rightarrow> size_t \<Rightarrow> string \<Rightarrow> parser \<Rightarrow> raised + parser" where
  "exec_match_range X P imm str s =
     (if length str < unat imm then Inl std_out_of_range
      else
        let first = take (unat imm) str; last = drop (unat imm) str
        in case available (of_nat (min (length first) (length last))) (ir s) s of
             Inl e \<Rightarrow> Inl e
           | Inr (ok, s1) \<Rightarrow>
               if \<not> ok then failure P s1
               else if length (input' s1) < unat (ir s1) then Inl undefined_behaviour
               else
                 let sz = size_of_first_rune X (drop (unat (ir s1)) (input' s1));
                     sub = take sz (drop (unat (ir s1)) (input' s1))
                 in if compare_bytes sub first < 0 \<or> 0 < compare_bytes sub last
                    then failure P s1
                    else Inr (s1\<lparr>ir := ir s1 + of_nat sz, cr := cr s1 + 1\<rparr>))"

definition exec_choice :: "size_t \<Rightarrow> int \<Rightarrow> parser \<Rightarrow> raised + parser" where
  "exec_choice imm off s =
     Inr (s\<lparr>stack_frames' := sf_backtrack # stack_frames' s,
            backtrack_stack' :=
              (ir s - (imm AND 255), cr s - drop_bit 8 imm, lr s, rc s, pc s + off)
                # backtrack_stack' s\<rparr>)"

definition exec_jump :: "int \<Rightarrow> parser \<Rightarrow> raised + parser" where
  "exec_jump off s = Inr (s\<lparr>pc := pc s + off\<rparr>)"

definition exec_commit :: "program \<Rightarrow> 8 word \<Rightarrow> int \<Rightarrow> parser \<Rightarrow> raised + parser" where
  "exec_commit P alt off s =
     (if stack_frames' s = [] \<or> hd (stack_frames' s) \<noteq> sf_backtrack then failure P s
      else case (if alt = commit_partial
                 then (case backtrack_stack' s of
                         [] \<Rightarrow> Inl undefined_behaviour
                       | (i, c, l, r, p) # bs \<Rightarrow>
                           Inr (s\<lparr>backtrack_stack' := (ir s, cr s, lr s, rc s, p) # bs\<rparr>))
                 else if alt = commit_back
                 then (case backtrack_stack' s of
                         [] \<Rightarrow> Inl undefined_behaviour
                       | (i, c, l, r, p) # bs \<Rightarrow>
                           pop_stack_frame P sf_backtrack (s\<lparr>ir := i, cr := c, lr := l\<rparr>))
                 else pop_stack_frame P sf_backtrack s) of
             Inl e \<Rightarrow> Inl e
           | Inr s1 \<Rightarrow> exec_jump off s1)"

text \<open>The scan of the memo stack in \<^verbatim>\<open>call\<close>, newest memo first.\<close>

fun find_memo :: "lrmemo list \<Rightarrow> size_t \<Rightarrow> int \<Rightarrow> lrmemo option" where
  "find_memo [] i a = None"
| "find_memo (memo # memos) i a =
     (if i \<le> subj_ir (sr memo)
      then (if subj_ir (sr memo) = i \<and> pca memo = a then Some memo
            else find_memo memos i a)
      else None)"

definition exec_call :: "program \<Rightarrow> size_t \<Rightarrow> int \<Rightarrow> parser \<Rightarrow> raised + parser" where
  "exec_call P imm off s =
     (if imm \<noteq> 0
      then case find_memo (lrmemo_stack' s) (ir s) (pc s + off) of
             Some memo \<Rightarrow>
               if subj_ir (sa memo) = lrfailcode \<or> imm < prec memo then failure P s
               else (case restore_responses_after (rc s) (responses memo) (semantics' s) of
                       (n, sem) \<Rightarrow>
                         Inr (s\<lparr>ir := subj_ir (sa memo), cr := subj_cr (sa memo),
                                lr := subj_lr (sa memo), rc := n, semantics' := sem\<rparr>))
           | None \<Rightarrow>
               Inr (s\<lparr>stack_frames' := sf_lrcall # stack_frames' s,
                      lrmemo_stack' :=
                        \<lparr>sr = \<lparr>subj_ir = ir s, subj_cr = cr s, subj_lr = lr s\<rparr>,
                         sa = \<lparr>subj_ir = lrfailcode, subj_cr = 0, subj_lr = 0\<rparr>,
                         rcr = rc s, pcr = pc s, pca = pc s + off,
                         responses = [], prec = imm\<rparr> # lrmemo_stack' s,
                      pc := pc s + off\<rparr>)
      else Inr (s\<lparr>stack_frames' := sf_call # stack_frames' s,
                  call_stack' := pc s # call_stack' s,
                  pc := pc s + off\<rparr>))"

definition exec_ret :: "program \<Rightarrow> parser \<Rightarrow> raised + parser" where
  "exec_ret P s =
     (if stack_frames' s = [] then failure P s
      else case hd (stack_frames' s) of
        sf_call \<Rightarrow>
          (case call_stack' s of
             [] \<Rightarrow> Inl undefined_behaviour
           | p # _ \<Rightarrow> pop_stack_frame P sf_call (s\<lparr>pc := p\<rparr>))
      | sf_lrcall \<Rightarrow>
          (case lrmemo_stack' s of
             [] \<Rightarrow> Inl undefined_behaviour
           | memo # memos \<Rightarrow>
               if subj_ir (sa memo) = lrfailcode \<or> subj_ir (sa memo) < ir s
               then (case drop_responses_after (rcr memo) (semantics' s) of
                       (dropped, sem) \<Rightarrow>
                         Inr (s\<lparr>lrmemo_stack' :=
                                  memo\<lparr>sa := \<lparr>subj_ir = ir s, subj_cr = cr s, subj_lr = lr s\<rparr>,
                                       responses := dropped\<rparr> # memos,
                                semantics' := sem,
                                ir := subj_ir (sr memo), cr := subj_cr (sr memo),
                                lr := subj_lr (sr memo), rc := rcr memo, pc := pca memo\<rparr>))
               else (case restore_responses_after (rcr memo) (responses memo) (semantics' s) of
                       (n, sem) \<Rightarrow>
                         pop_stack_frame P sf_lrcall
                           (s\<lparr>ir := subj_ir (sa memo), cr := subj_cr (sa memo),
                              lr := subj_lr (sa memo), pc := pcr memo,
                              rc := n, semantics' := sem\<rparr>)))
      | _ \<Rightarrow> failure P s)"

definition exec_fail :: "program \<Rightarrow> size_t \<Rightarrow> parser \<Rightarrow> raised + parser" where
  "exec_fail P imm s = failure P (s\<lparr>fc := imm\<rparr>)"

definition exec_accept :: "program \<Rightarrow> 8 word \<Rightarrow> parser \<Rightarrow> raised + parser" where
  "exec_accept P alt s =
     (let s1 = s\<lparr>cut_deferred' := (capture_stack' s \<noteq> [] \<or> lrmemo_stack' s \<noteq> [])\<rparr>
      in if \<not> cut_deferred' s1
         then case accept P s1 of
                Inl e \<Rightarrow> Inl e
              | Inr s2 \<Rightarrow> Inr (s2\<lparr>result := (alt = accept_final),
                                   finished := (alt = accept_final)\<rparr>)
         else Inr s1)"

definition exec_newline :: "parser \<Rightarrow> raised + parser" where
  "exec_newline s = Inr (s\<lparr>cr := 1, lr := lr s + 1\<rparr>)"

definition load_registers :: "parser \<Rightarrow> parser" where
  "load_registers s =
     s\<lparr>ir := reg_ir (registers' s), cr := reg_cr (registers' s), lr := reg_lr (registers' s),
       rc := reg_rc (registers' s), pc := reg_pc (registers' s), fc := reg_fc (registers' s)\<rparr>"

definition exec_predicate :: "program \<Rightarrow> size_t \<Rightarrow> parser \<Rightarrow> raised + parser" where
  "exec_predicate P imm s =
     (let s1 = note_max_input (save_registers s)
      in if length (predicates P) \<le> unat imm then Inl undefined_behaviour
         else case (predicates P ! unat imm) (input' s1) (registers' s1) of
                Inl x \<Rightarrow> Inl x
              | Inr (accepted, regs, enqueued, pushed) \<Rightarrow>
                  let s2 = load_registers (s1\<lparr>registers' := regs, input' := input' s1 @ enqueued,
                                             sources' := pushed @ sources' s1\<rparr>);
                      s3 = s2\<lparr>semantics' := pop_responses_after (rc s2) (semantics' s2)\<rparr>
                  in if \<not> accepted then failure P s3 else Inr s3)"

text \<open>The instruction behind a predicate that returns.\<close>

lemma exec_predicate_unfold:
  assumes pr: "(predicates P ! unat imm) (input' s0) (registers' s0) =
                 Inr (accepted, regs, enq, pushed)"
      and s0: "s0 = note_max_input (save_registers s)"
      and nl: "\<not> length (predicates P) \<le> unat imm"
  shows "exec_predicate P imm s =
     (if \<not> accepted
      then failure P ((load_registers (s0\<lparr>registers' := regs, input' := input' s0 @ enq,
                                          sources' := pushed @ sources' s0\<rparr>))
                       \<lparr>semantics' := pop_responses_after (reg_rc regs) (semantics' s0)\<rparr>)
      else Inr ((load_registers (s0\<lparr>registers' := regs, input' := input' s0 @ enq,
                                    sources' := pushed @ sources' s0\<rparr>))
                       \<lparr>semantics' := pop_responses_after (reg_rc regs) (semantics' s0)\<rparr>))"
  using pr nl unfolding exec_predicate_def s0 [symmetric] Let_def
  by (simp add: load_registers_def)

definition call_depth_now :: "parser \<Rightarrow> nat" where
  "call_depth_now s = length (call_stack' s) + length (lrmemo_stack' s)"

definition exec_action :: "size_t \<Rightarrow> parser \<Rightarrow> raised + parser" where
  "exec_action imm s =
     (case push_response (call_depth_now s) imm (- 1) (semantics' s) of
        (n, sem) \<Rightarrow> Inr (s\<lparr>rc := n, semantics' := sem\<rparr>))"

definition exec_begin_capture :: "parser \<Rightarrow> raised + parser" where
  "exec_begin_capture s =
     Inr (s\<lparr>stack_frames' := sf_capture # stack_frames' s,
            capture_stack' := \<lparr>subj_ir = ir s, subj_cr = cr s, subj_lr = lr s\<rparr> # capture_stack' s\<rparr>)"

definition exec_end_capture :: "program \<Rightarrow> size_t \<Rightarrow> parser \<Rightarrow> raised + parser" where
  "exec_end_capture P imm s =
     (if stack_frames' s = [] \<or> hd (stack_frames' s) \<noteq> sf_capture then failure P s
      else case capture_stack' s of
             [] \<Rightarrow> Inl undefined_behaviour
           | c0 # _ \<Rightarrow>
               (case pop_stack_frame P sf_capture s of
                  Inl e \<Rightarrow> Inl e
                | Inr s1 \<Rightarrow>
                    if ir s < subj_ir c0 then failure P s1
                    else (case push_capture_response (call_depth_now s1) imm
                                 \<lparr>range_index = subj_ir c0, range_size = ir s - subj_ir c0,
                                  range_start = \<lparr>column = subj_cr c0, line = subj_lr c0\<rparr>,
                                  range_end = \<lparr>column = cr s, line = lr s\<rparr>\<rparr>
                                 (semantics' s1) of
                            (n, sem) \<Rightarrow> Inr (s1\<lparr>rc := n, semantics' := sem\<rparr>))))"

subsection \<open>The interpreter loop\<close>

definition exec ::
  "externals \<Rightarrow> program \<Rightarrow> 8 word \<Rightarrow> 8 word \<Rightarrow> size_t \<Rightarrow> int \<Rightarrow> string \<Rightarrow> parser
   \<Rightarrow> raised + parser" where
  "exec X P opb alt imm off str s =
     (case opcode_of opb of
        None \<Rightarrow> Inl (lug bad_opcode)
      | Some op_match \<Rightarrow> exec_match P imm str s
      | Some op_match_any \<Rightarrow> exec_match_any X P s
      | Some op_match_class \<Rightarrow> exec_match_class X P alt imm str s
      | Some op_match_range \<Rightarrow> exec_match_range X P imm str s
      | Some op_choice \<Rightarrow> exec_choice imm off s
      | Some op_commit \<Rightarrow> exec_commit P alt off s
      | Some op_jump \<Rightarrow> exec_jump off s
      | Some op_call \<Rightarrow> exec_call P imm off s
      | Some op_ret \<Rightarrow> exec_ret P s
      | Some op_fail \<Rightarrow> exec_fail P imm s
      | Some op_accept \<Rightarrow> exec_accept P alt s
      | Some op_newline \<Rightarrow> exec_newline s
      | Some op_predicate \<Rightarrow> exec_predicate P imm s
      | Some op_action \<Rightarrow> exec_action imm s
      | Some op_begin_capture \<Rightarrow> exec_begin_capture s
      | Some op_end_capture \<Rightarrow> exec_end_capture P imm s)"

text \<open>One turn of \<^verbatim>\<open>while (!done)\<close>: decode at \<open>pc\<close>, then dispatch.\<close>

definition step :: "externals \<Rightarrow> program \<Rightarrow> parser \<Rightarrow> raised + parser" where
  "step X P s =
     (case decode (instructions P) (pc s) of
        Inl e \<Rightarrow> Inl e
      | Inr ((opb, alt, imm, off, str), pc1) \<Rightarrow> exec X P opb alt imm off str (s\<lparr>pc := pc1\<rparr>))"

text \<open>The loop may run forever; then its value is \<open>None\<close>.\<close>

partial_function (option) run :: "externals \<Rightarrow> program \<Rightarrow> parser \<Rightarrow> (raised + parser) option" where
  "run X P s =
     (if finished s then Some (Inr s)
      else case step X P s of
             Inl e \<Rightarrow> Some (Inl e)
           | Inr s1 \<Rightarrow> run X P s1)"

text \<open>
  \<^verbatim>\<open>parser::parse()\<close>. The reentrancy sentinel sets \<^verbatim>\<open>parsing_\<close> on entry and clears it when
  the function is left.
\<close>

definition parse_entry :: "parser \<Rightarrow> parser" where
  "parse_entry s =
     (load_registers s)\<lparr>parsing' := True, result := False, finished := False,
                        rc := 0, pc := 0, fc := 0, cut_deferred' := False, cut_frame' := 0,
                        semantics' := clear (semantics' s)\<rparr>"

definition parse :: "externals \<Rightarrow> program \<Rightarrow> parser \<Rightarrow> (raised + bool \<times> parser) option" where
  "parse X P s =
     (if parsing' s then Some (Inl (lug reenterant_parse_error))
      else if instructions P = [] then Some (Inl (lug bad_grammar))
      else case run X P (parse_entry s) of
             None \<Rightarrow> None
           | Some (Inl e) \<Rightarrow> Some (Inl e)
           | Some (Inr s1) \<Rightarrow> Some (Inr (result s1, s1\<lparr>parsing' := False\<rparr>)))"

text \<open>
  A parser as constructed by \<^verbatim>\<open>parser{grmr, sema}\<close> with a fresh \<^verbatim>\<open>semantics\<close>, and
  \<^verbatim>\<open>lug::parse(std::string_view, const grammar&)\<close>, which enqueues the text and parses.
\<close>

definition new_semantics :: semantics where
  "new_semantics = \<lparr>match' = [], prune_depth' = - 1, call_depth' = 0, responses' = [],
                    captures' = [], invoked = []\<rparr>"

definition new_parser :: parser where
  "new_parser =
     \<lparr>input' = [],
      registers' = \<lparr>reg_ir = 0, reg_cr = 1, reg_lr = 1, reg_rc = 0, reg_pc = 0, reg_fc = 0\<rparr>,
      max_input' = \<lparr>subj_ir = 0, subj_cr = 1, subj_lr = 1\<rparr>,
      parsing' = False, reading' = False, cut_deferred' = False, cut_frame' = 0,
      sources' = [], stack_frames' = [], backtrack_stack' = [], call_stack' = [],
      capture_stack' = [], lrmemo_stack' = [], semantics' = new_semantics,
      ir = 0, cr = 1, lr = 1, rc = 0, pc = 0, fc = 0, result = False, finished = False\<rparr>"

definition enqueue :: "string \<Rightarrow> parser \<Rightarrow> parser" where
  "enqueue txt s = s\<lparr>input' := input' s @ txt\<rparr>"

definition lug_parse :: "externals \<Rightarrow> string \<Rightarrow> program \<Rightarrow> (raised + bool \<times> parser) option" where
  "lug_parse X sv P = parse X P (enqueue sv new_parser)"

definition max_input_position :: "parser \<Rightarrow> syntax_position" where
  "max_input_position s = \<lparr>column = subj_cr (max_input' s), line = subj_lr (max_input' s)\<rparr>"

subsection \<open>The encoder and the combinators\<close>

text \<open>
  \<^verbatim>\<open>class encoder\<close> with its two final subclasses in one record: the
  \<^verbatim>\<open>instruction_length_evaluator\<close> only counts in \<open>length'\<close>, the \<^verbatim>\<open>program_encoder\<close>
  appends to \<open>program'\<close>. The head of \<open>zero_length'\<close> is \<^verbatim>\<open>zero_length_.back()\<close>.
\<close>

datatype encoder_kind = instruction_length_evaluator | program_encoder

record encoder =
  kind :: encoder_kind
  length' :: int
  program' :: program
  zero_length' :: "bool list"

definition and_then :: "raised + 'a \<Rightarrow> ('a \<Rightarrow> raised + 'b) \<Rightarrow> raised + 'b" where
  "and_then r f = (case r of Inl e \<Rightarrow> Inl e | Inr x \<Rightarrow> f x)"

definition empty_program :: program where
  "empty_program = \<lparr>instructions = [], predicates = [], actions = [], captures = [],
                     matches_eps = True\<rparr>"

definition new_encoder :: "encoder_kind \<Rightarrow> program \<Rightarrow> encoder" where
  "new_encoder k p = \<lparr>kind = k, length' = 0, program' = p, zero_length' = [True]\<rparr>"

definition ptrdiff_max :: int where
  "ptrdiff_max = 2 ^ 63 - 1"

definition do_append :: "instruction \<Rightarrow> encoder \<Rightarrow> raised + encoder" where
  "do_append i d =
     (case kind d of
        instruction_length_evaluator \<Rightarrow>
          if ptrdiff_max - length' d < 1 then Inl (lug program_limit_error)
          else Inr (d\<lparr>length' := length' d + 1\<rparr>)
      | program_encoder \<Rightarrow>
          Inr (d\<lparr>program' := (program' d)\<lparr>instructions := instructions (program' d) @ [i]\<rparr>\<rparr>))"

definition do_length :: "encoder \<Rightarrow> int" where
  "do_length d =
     (case kind d of
        instruction_length_evaluator \<Rightarrow> length' d
      | program_encoder \<Rightarrow> int (length (instructions (program' d))))"

text \<open>The constructor \<^verbatim>\<open>instruction(std::ptrdiff_t)\<close>.\<close>

definition offset_instruction :: "int \<Rightarrow> raised + instruction" where
  "offset_instruction n =
     (if - (2 ^ 31) \<le> n \<and> n < 2 ^ 31 then Inr (offset n) else Inl (lug program_limit_error))"

definition zclr :: "bool \<Rightarrow> encoder \<Rightarrow> raised + encoder" where
  "zclr c d =
     (if c then (case zero_length' d of
                   [] \<Rightarrow> Inl undefined_behaviour
                 | z # zs \<Rightarrow> Inr (d\<lparr>zero_length' := False # zs\<rparr>))
      else Inr d)"

definition zpop :: "encoder \<Rightarrow> raised + encoder" where
  "zpop d =
     (case zero_length' d of
        [] \<Rightarrow> Inl undefined_behaviour
      | z # zs \<Rightarrow> Inr (d\<lparr>zero_length' := zs\<rparr>))"

definition zpsh :: "nat \<Rightarrow> encoder \<Rightarrow> raised + encoder" where
  "zpsh n d =
     (if n = 0 \<or> length (zero_length' d) < n then Inl undefined_behaviour
      else Inr (d\<lparr>zero_length' := (zero_length' d ! (n - 1)) # zero_length' d\<rparr>))"

definition zand :: "nat \<Rightarrow> encoder \<Rightarrow> raised + encoder" where
  "zand n d =
     (if length (zero_length' d) \<le> n then Inl undefined_behaviour
      else Inr (d\<lparr>zero_length' :=
                   (\<forall>z \<in> set (take n (zero_length' d)). z) # tl (drop n (zero_length' d))\<rparr>))"

text \<open>The overloads of \<^verbatim>\<open>encoder::encode\<close>.\<close>

definition encode :: "opcode \<Rightarrow> 16 word \<Rightarrow> encoder \<Rightarrow> raised + encoder" where
  "encode opc imm d = do_append (prefix (opcode_byte opc) operands_none imm) d"

definition encode_alt :: "opcode \<Rightarrow> 8 word \<Rightarrow> 16 word \<Rightarrow> encoder \<Rightarrow> raised + encoder" where
  "encode_alt opc alt imm d = do_append (prefix (opcode_byte opc) (to_operands alt) imm) d"

definition encode_off :: "opcode \<Rightarrow> int \<Rightarrow> 16 word \<Rightarrow> encoder \<Rightarrow> raised + encoder" where
  "encode_off opc off imm d =
     and_then (do_append (prefix (opcode_byte opc) operands_off imm) d) (\<lambda>d1.
     and_then (offset_instruction off) (\<lambda>i. do_append i d1))"

definition encode_alt_off ::
  "opcode \<Rightarrow> 8 word \<Rightarrow> int \<Rightarrow> 16 word \<Rightarrow> encoder \<Rightarrow> raised + encoder" where
  "encode_alt_off opc alt off imm d =
     and_then (do_append (prefix (opcode_byte opc) (operands_off OR to_operands alt) imm) d) (\<lambda>d1.
     and_then (offset_instruction off) (\<lambda>i. do_append i d1))"

text \<open>The constructor \<^verbatim>\<open>instruction(std::string_view)\<close> and the loop that applies it.\<close>

fun str_instruction :: "string \<Rightarrow> instruction" where
  "str_instruction (a # b # c # d # _) = str4 a b c d"
| "str_instruction [a, b, c] = str4 a b c (CHR 0x00)"
| "str_instruction [a, b] = str4 a b (CHR 0x00) (CHR 0x00)"
| "str_instruction [a] = str4 a (CHR 0x00) (CHR 0x00) (CHR 0x00)"
| "str_instruction [] = str4 (CHR 0x00) (CHR 0x00) (CHR 0x00) (CHR 0x00)"

function append_str :: "string \<Rightarrow> encoder \<Rightarrow> raised + encoder" where
  "append_str subsequence d =
     and_then (do_append (str_instruction subsequence) d) (\<lambda>d1.
       if drop 4 subsequence \<noteq> [] then append_str (drop 4 subsequence) d1 else Inr d1)"
  by pat_completeness auto
termination
  by (relation "measure (\<lambda>(subsequence, d). length subsequence)") auto

definition maxstrlen :: nat where
  "maxstrlen = 256"

definition encode_str :: "opcode \<Rightarrow> nat \<Rightarrow> string \<Rightarrow> encoder \<Rightarrow> raised + encoder" where
  "encode_str opc v subsequence d =
     (if subsequence \<noteq> []
      then if \<not> (1 \<le> v \<and> v \<le> maxstrlen) then Inl (lug resource_limit_error)
           else if \<not> (1 \<le> length subsequence \<and> length subsequence \<le> maxstrlen)
           then Inl (lug resource_limit_error)
           else and_then
                  (do_append (prefix (opcode_byte opc) operands_str
                     (push_bit 8 (of_nat (v - 1)) OR of_nat (length subsequence - 1))) d)
                  (append_str subsequence)
      else Inr d)"

text \<open>
  \<^verbatim>\<open>encoder::match\<close> for a sequence of at most 256 bytes, where the loop that splits a
  longer sequence is not entered, and \<^verbatim>\<open>encoder::match_range\<close>.
\<close>

definition match_short :: "externals \<Rightarrow> string \<Rightarrow> encoder \<Rightarrow> raised + encoder" where
  "match_short X sequence d =
     and_then (encode_str op_match (count_runes X sequence) sequence d)
              (zclr (sequence \<noteq> []))"

definition match_range_short ::
  "externals \<Rightarrow> string \<Rightarrow> string \<Rightarrow> encoder \<Rightarrow> raised + encoder" where
  "match_range_short X lo hi d =
     (if lo = hi then match_short X lo d
      else and_then (encode_str op_match_range (length lo) (lo @ hi) d) (zclr True))"

text \<open>\<^verbatim>\<open>program_encoder::add_item\<close> and the three \<^verbatim>\<open>do_add_semantic_...\<close> functions.\<close>

definition add_item :: "'a list \<Rightarrow> 'a \<Rightarrow> raised + ('a list \<times> 16 word)" where
  "add_item items item =
     (if \<not> int (length items) \<le> 65534 then Inl (lug resource_limit_error)
      else Inr (items @ [item], of_nat (length (items @ [item]) - 1)))"

definition do_add_semantic_predicate ::
  "semantic_predicate \<Rightarrow> encoder \<Rightarrow> raised + (16 word \<times> encoder)" where
  "do_add_semantic_predicate f d =
     (case kind d of
        instruction_length_evaluator \<Rightarrow> Inr (0, d)
      | program_encoder \<Rightarrow>
          and_then (add_item (predicates (program' d)) f) (\<lambda>(items, imm).
            Inr (imm, d\<lparr>program' := (program' d)\<lparr>predicates := items\<rparr>\<rparr>)))"

definition do_add_semantic_action ::
  "semantic_action \<Rightarrow> encoder \<Rightarrow> raised + (16 word \<times> encoder)" where
  "do_add_semantic_action f d =
     (case kind d of
        instruction_length_evaluator \<Rightarrow> Inr (0, d)
      | program_encoder \<Rightarrow>
          and_then (add_item (actions (program' d)) f) (\<lambda>(items, imm).
            Inr (imm, d\<lparr>program' := (program' d)\<lparr>actions := items\<rparr>\<rparr>)))"

definition do_add_semantic_capture_action ::
  "semantic_capture \<Rightarrow> encoder \<Rightarrow> raised + (16 word \<times> encoder)" where
  "do_add_semantic_capture_action f d =
     (case kind d of
        instruction_length_evaluator \<Rightarrow> Inr (0, d)
      | program_encoder \<Rightarrow>
          and_then (add_item (captures (program' d)) f) (\<lambda>(items, imm).
            Inr (imm, d\<lparr>program' := (program' d)\<lparr>captures := items\<rparr>\<rparr>)))"

text \<open>
  The expressions of \<^verbatim>\<open>namespace language\<close> that call no rule: the primitives \<^verbatim>\<open>chr(c)\<close>,
  \<^verbatim>\<open>chr(s, e)\<close>, \<^verbatim>\<open>any\<close>, \<^verbatim>\<open>cut\<close>, \<^verbatim>\<open>ilr\<close>, \<^verbatim>\<open>eps\<close>, \<^verbatim>\<open>eoi\<close>, a predicate, and the operators
  \<^verbatim>\<open>!e\<close>, \<^verbatim>\<open>&e\<close>, \<^verbatim>\<open>*e\<close>, \<^verbatim>\<open>e1 | e2\<close>, \<^verbatim>\<open>e1 > e2\<close> and \<^verbatim>\<open>e < a\<close> for an action on the
  semantics and for an action on the semantics and the syntax.
\<close>

datatype expr =
    chr char
  | chr_range char char
  | any
  | cut
  | ilr
  | eps
  | eoi
  | e_predicate semantic_predicate
  | e_not expr
  | e_and expr
  | e_star expr
  | e_alt expr expr
  | e_seq expr expr
  | e_action expr semantic_action
  | e_capture expr semantic_capture

text \<open>
  \<^verbatim>\<open>encoder::evaluate\<close> on the lambda of each expression. \<^verbatim>\<open>encoder::evaluate_length\<close> is
  the fresh \<^verbatim>\<open>instruction_length_evaluator\<close> run on the operand, and 0 inside a length
  evaluator.
\<close>

fun evaluate :: "externals \<Rightarrow> expr \<Rightarrow> encoder \<Rightarrow> raised + encoder" where
  "evaluate X (chr c) d = match_short X [c] d"
| "evaluate X (chr_range s e) d = match_range_short X [s] [e] d"
| "evaluate X any d = and_then (encode op_match_any 0 d) (zclr True)"
| "evaluate X cut d = encode op_accept 0 d"
| "evaluate X ilr d = encode op_newline 0 d"
| "evaluate X eps d = encode op_match 0 d"
| "evaluate X eoi d =
     and_then (encode_off op_choice 2 0 d) (\<lambda>d1.
     and_then (encode op_match_any 0 d1) (encode op_fail 1))"
| "evaluate X (e_predicate f) d =
     and_then (do_add_semantic_predicate f d) (\<lambda>(imm, d1). encode op_predicate imm d1)"
| "evaluate X (e_not x) d =
     and_then (if kind d = program_encoder
               then and_then (evaluate X x (new_encoder instruction_length_evaluator empty_program))
                      (\<lambda>dl. Inr (do_length dl))
               else Inr 0) (\<lambda>n.
     and_then (encode_off op_choice (1 + n) 0 d) (\<lambda>d1.
     and_then (zpsh 1 d1) (\<lambda>d2.
     and_then (evaluate X x d2) (\<lambda>d3.
     and_then (zpop d3) (encode op_fail 1)))))"
| "evaluate X (e_and x) d =
     and_then (if kind d = program_encoder
               then and_then (evaluate X x (new_encoder instruction_length_evaluator empty_program))
                      (\<lambda>dl. Inr (do_length dl))
               else Inr 0) (\<lambda>n.
     and_then (encode_off op_choice (2 + n) 0 d) (\<lambda>d1.
     and_then (zpsh 1 d1) (\<lambda>d2.
     and_then (evaluate X x d2) (\<lambda>d3.
     and_then (zpop d3) (\<lambda>d4.
     and_then (encode_alt_off op_commit commit_back 1 0 d4) (encode op_fail 0))))))"
| "evaluate X (e_star x) d =
     and_then (if kind d = program_encoder
               then and_then (evaluate X x (new_encoder instruction_length_evaluator empty_program))
                      (\<lambda>dl. Inr (do_length dl))
               else Inr 0) (\<lambda>n.
     and_then (encode_off op_choice (2 + n) 0 d) (\<lambda>d1.
     and_then (zpsh 1 d1) (\<lambda>d2.
     and_then (evaluate X x d2) (\<lambda>d3.
     and_then (zpop d3) (encode_alt_off op_commit commit_partial (- (2 + n)) 0)))))"
| "evaluate X (e_alt x1 x2) d =
     and_then (if kind d = program_encoder
               then and_then (evaluate X x1 (new_encoder instruction_length_evaluator empty_program))
                      (\<lambda>dl. Inr (do_length dl))
               else Inr 0) (\<lambda>n1.
     and_then (encode_off op_choice (2 + n1) 0 d) (\<lambda>d1.
     and_then (zpsh 1 d1) (\<lambda>d2.
     and_then (evaluate X x1 d2) (\<lambda>d3.
     and_then (if kind d3 = program_encoder
               then and_then (evaluate X x2 (new_encoder instruction_length_evaluator empty_program))
                      (\<lambda>dl. Inr (do_length dl))
               else Inr 0) (\<lambda>n2.
     and_then (encode_off op_commit n2 0 d3) (\<lambda>d4.
     and_then (zpsh 2 d4) (\<lambda>d5.
     and_then (evaluate X x2 d5) (zand 2))))))))"
| "evaluate X (e_seq e1 e2) d = and_then (evaluate X e1 d) (evaluate X e2)"
| "evaluate X (e_action e a) d =
     and_then (evaluate X e d) (\<lambda>d1.
     and_then (do_add_semantic_action a d1) (\<lambda>(imm, d2). encode op_action imm d2))"
| "evaluate X (e_capture e a) d =
     and_then (encode op_begin_capture 0 d) (\<lambda>d1.
     and_then (evaluate X e d1) (\<lambda>d2.
     and_then (do_add_semantic_capture_action a d2) (\<lambda>(imm, d3). encode op_end_capture imm d3)))"

text \<open>\<^verbatim>\<open>operator+\<close>, \<^verbatim>\<open>operator~\<close> and the two \<^verbatim>\<open>operator--\<close>.\<close>

definition e_plus :: "expr \<Rightarrow> expr" where "e_plus x = e_seq x (e_star x)"
definition e_opt :: "expr \<Rightarrow> expr" where "e_opt e = e_alt e eps"
definition cut_before :: "expr \<Rightarrow> expr" where "cut_before e = e_seq cut e"
definition cut_after :: "expr \<Rightarrow> expr" where "cut_after e = e_seq e cut"

text \<open>
  \<^verbatim>\<open>rule::rule(const E&)\<close>: a \<^verbatim>\<open>rule_encoder\<close> evaluates the expression, and the destructor
  of the \<^verbatim>\<open>program_encoder\<close> stores \<^verbatim>\<open>matches_eps\<close>. The expressions above call no rule, so
  the list of callees of the rule stays empty.
\<close>

definition rule :: "externals \<Rightarrow> expr \<Rightarrow> raised + program" where
  "rule X e =
     and_then (evaluate X e (new_encoder program_encoder empty_program)) (\<lambda>d.
       case zero_length' d of
         [] \<Rightarrow> Inl undefined_behaviour
       | z # zs \<Rightarrow> Inr ((program' d)\<lparr>matches_eps := z\<rparr>))"

text \<open>\<^verbatim>\<open>program::concatenate\<close>: the loop over the instructions of the source program.\<close>

function concatenate_instructions ::
  "nat \<Rightarrow> nat \<Rightarrow> nat \<Rightarrow> instruction list \<Rightarrow> instruction list \<Rightarrow> raised + instruction list" where
  "concatenate_instructions np na nc [] acc = Inr acc"
| "concatenate_instructions np na nc (i # rest) acc =
     (case i of
        prefix opb auxb valw \<Rightarrow>
          (let valoffset = (case opcode_of opb of
                              Some op_predicate \<Rightarrow> np
                            | Some op_action \<Rightarrow> na
                            | Some op_end_capture \<Rightarrow> nc
                            | _ \<Rightarrow> 0)
           in and_then
                (if valoffset \<noteq> 0
                 then (if valoffset \<le> unat valw + valoffset \<and> int (unat valw + valoffset) \<le> 65535
                       then Inr (of_nat (unat valw + valoffset))
                       else Inl (lug resource_limit_error))
                 else Inr valw)
                (\<lambda>valw1.
                   let n = instruction_length auxb valw1 - 1
                   in if length rest < n then Inl undefined_behaviour
                      else concatenate_instructions np na nc (drop n rest)
                             (acc @ prefix opb auxb valw1 # take n rest)))
      | _ \<Rightarrow> Inl undefined_behaviour)"
  by pat_completeness auto
termination
  by (relation "measure (\<lambda>(np, na, nc, src, acc). length src)") auto

definition concatenate :: "program \<Rightarrow> program \<Rightarrow> raised + program" where
  "concatenate dst src =
     (if 2 ^ 64 - 1 - int (length (instructions dst)) < int (length (instructions src))
      then Inl (lug program_limit_error)
      else and_then
             (concatenate_instructions (length (predicates dst)) (length (actions dst))
                (length (captures dst)) (instructions src) (instructions dst))
             (\<lambda>code. Inr (dst\<lparr>instructions := code,
                              predicates := predicates dst @ predicates src,
                              actions := actions dst @ actions src,
                              captures := captures dst @ captures src,
                              matches_eps := (matches_eps dst \<and> matches_eps src)\<rparr>)))"

text \<open>
  \<^verbatim>\<open>start(const rule&)\<close> for a start rule without callees. The first encoder emits
  \<^verbatim>\<open>call 0; accept_final\<close> and records the call at address 0; the walk lays out the one
  program of the rule at address 3, followed by \<^verbatim>\<open>ret\<close>; no program is left-recursive,
  so the call keeps the immediate 0, and its offset becomes \<open>0 + 3 - (0 + 2)\<close>.
\<close>

definition start :: "program \<Rightarrow> raised + program" where
  "start start_rule =
     and_then (encode_off op_call 0 0 (new_encoder program_encoder empty_program)) (\<lambda>d1.
     and_then (encode_alt op_accept accept_final 0
                 (d1\<lparr>zero_length' := [hd (zero_length' d1) \<and> matches_eps start_rule]\<rparr>)) (\<lambda>d2.
     let grprogram = (program' d2)\<lparr>matches_eps := hd (zero_length' d2)\<rparr>;
         address = int (length (instructions grprogram))
     in and_then (concatenate grprogram start_rule) (\<lambda>g1.
        let code = instructions g1 @ [prefix (opcode_byte op_ret) operands_none 0]
        in case code of
             prefix opb auxb valw # offset n # rest \<Rightarrow>
               and_then (offset_instruction (n + address - (0 + 2))) (\<lambda>i.
                 Inr (g1\<lparr>instructions :=
                           prefix opb auxb (if opcode_of opb = Some op_call then 0 else valw)
                             # i # rest\<rparr>))
           | _ \<Rightarrow> Inl undefined_behaviour)))"

text \<open>
  Modelled from the spec: the UTF-8 primitives and the Unicode query of lug/utf8.hpp and
  lug/unicode.hpp, which are not in the sources, for input of 7-bit characters only:
  every rune is one byte and is its own lead byte, letters have class bit 1 and digits
  class bit 2 and nothing else, every rune has script 0, and no rune has a property or a
  general category. It serves the concrete runs below.
\<close>

definition ascii_class :: "nat \<Rightarrow> size_t" where
  "ascii_class r =
     (if (65 \<le> r \<and> r \<le> 90) \<or> (97 \<le> r \<and> r \<le> 122) then 1
      else if 48 \<le> r \<and> r \<le> 57 then 2 else 0)"

definition ascii :: externals where
  "ascii =
     \<lparr>size_of_first_rune = (\<lambda>rest. min 1 (length rest)),
      decode_rune = (\<lambda>rest. case rest of [] \<Rightarrow> (0, 0) | c # _ \<Rightarrow> (of_char c, 1)),
      count_runes = length,
      is_lead = (\<lambda>c. True),
      sizeof_ptype = 8,
      sizeof_gctype = 4,
      any_of_ptype = (\<lambda>r bs. False),
      any_of_gctype = (\<lambda>r bs. False),
      script_is = (\<lambda>r imm. imm = 0),
      any_of_ctype = (\<lambda>r imm. imm AND ascii_class r \<noteq> 0)\<rparr>"

text \<open>A bounded number of turns of the loop, for the concrete runs.\<close>

fun steps :: "nat \<Rightarrow> externals \<Rightarrow> program \<Rightarrow> parser \<Rightarrow> raised + parser" where
  "steps 0 X P s = Inr s"
| "steps (Suc n) X P s =
     (if finished s then Inr s
      else case step X P s of Inl e \<Rightarrow> Inl e | Inr s1 \<Rightarrow> steps n X P s1)"

section \<open>Concrete grammars\<close>

text \<open>
  The programs below are what \<^verbatim>\<open>start\<close> returns for small grammars. They serve the
  concrete runs; each is checked against the encoder.
\<close>

lemmas encoder_defs = rule_def start_def new_encoder_def empty_program_def and_then_def
  encode_def encode_alt_def encode_off_def encode_alt_off_def do_append_def do_length_def
  offset_instruction_def zclr_def zpop_def zpsh_def zand_def encode_str_def match_short_def
  match_range_short_def add_item_def do_add_semantic_predicate_def do_add_semantic_action_def
  do_add_semantic_capture_action_def concatenate_def opcode_of_def opcodes_def
  instruction_length_def operands_none_def operands_off_def operands_str_def
  operands_altcode_def to_operands_def accept_final_def commit_back_def commit_partial_def
  maxstrlen_def ascii_def ptrdiff_max_def

text \<open>\<^verbatim>\<open>rule S = &(eps < a)\<close> for an action \<open>a\<close> on the semantics, and \<^verbatim>\<open>start(S)\<close>.\<close>

definition and_action_program :: program where
  "and_action_program =
     \<lparr>instructions =
        [prefix 7 64 0, offset 1, prefix 10 1 0, prefix 4 64 0, offset 4,
         prefix 0 0 0, prefix 13 0 0, prefix 5 65 0, offset 1, prefix 9 0 0,
         prefix 8 0 0],
      predicates = [], actions = [returns], captures = [], matches_eps = True\<rparr>"


text \<open>The state of its run on the empty input in which \<^verbatim>\<open>commit_back\<close> is next.\<close>

definition and_action_at_commit :: parser where
  "and_action_at_commit =
     (parse_entry new_parser)
       \<lparr>pc := 7, rc := 1,
        stack_frames' := [sf_backtrack, sf_call],
        backtrack_stack' := [(0, 1, 1, 0, 9)],
        call_stack' := [2],
        semantics' := (clear new_semantics)
          \<lparr>responses' := [\<lparr>call_depth = 1, action_index = 0, capture_index = - 1\<rparr>]\<rparr>\<rparr>"

lemma and_action_reaches_commit:
  "steps 4 ascii and_action_program (parse_entry new_parser) = Inr and_action_at_commit"
  by code_simp

lemma and_action_decode_commit:
  "decode (instructions and_action_program) (pc and_action_at_commit) =
     Inr ((5, commit_back, 0, 1, []), 9)"
  by code_simp





text \<open>
  The left-recursive grammar \<^verbatim>\<open>Expr = Expr > chr('+') > chr('a') | chr('a')\<close>. A rule that
  calls a rule is outside the expressions modelled above, so the program is written out
  as \<^verbatim>\<open>start(Expr)\<close> lays it out: the body \<^verbatim>\<open>choice 8; call; match +; match a; commit 2;
  match a\<close> at address 3, both calls marked left-recursive (immediate 1) with the offsets
  \<open>3 - 2\<close> and \<open>3 - 7\<close>.
\<close>

definition left_recursive_program :: program where
  "left_recursive_program =
     \<lparr>instructions =
        [prefix 7 64 1, offset 1, prefix 10 1 0,
         prefix 4 64 0, offset 8,
         prefix 7 64 1, offset (- 4),
         prefix 0 128 0, str4 CHR ''+'' CHR 0x00 CHR 0x00 CHR 0x00,
         prefix 0 128 0, str4 CHR ''a'' CHR 0x00 CHR 0x00 CHR 0x00,
         prefix 5 64 0, offset 2,
         prefix 0 128 0, str4 CHR ''a'' CHR 0x00 CHR 0x00 CHR 0x00,
         prefix 8 0 0],
      predicates = [], actions = [], captures = [], matches_eps = False\<rparr>"

text \<open>
  Two states of its run on \<open>a+a\<close>: the inner call in the second turn of the grow loop,
  and the \<^verbatim>\<open>ret\<close> that ends the second turn.
\<close>

definition left_recursive_at_call :: parser where
  "left_recursive_at_call =
     (parse_entry (enqueue ''a+a'' new_parser))
       \<lparr>pc := 5,
        stack_frames' := [sf_backtrack, sf_lrcall],
        backtrack_stack' := [(0, 1, 1, 0, 13)],
        lrmemo_stack' :=
          [\<lparr>sr = \<lparr>subj_ir = 0, subj_cr = 1, subj_lr = 1\<rparr>,
            sa = \<lparr>subj_ir = 1, subj_cr = 2, subj_lr = 1\<rparr>,
            rcr = 0, pcr = 2, pca = 3, responses = [], prec = 1\<rparr>]\<rparr>"

definition left_recursive_at_ret :: parser where
  "left_recursive_at_ret =
     (parse_entry (enqueue ''a+a'' new_parser))
       \<lparr>pc := 15, ir := 3, cr := 4,
        stack_frames' := [sf_lrcall],
        lrmemo_stack' :=
          [\<lparr>sr = \<lparr>subj_ir = 0, subj_cr = 1, subj_lr = 1\<rparr>,
            sa = \<lparr>subj_ir = 1, subj_cr = 2, subj_lr = 1\<rparr>,
            rcr = 0, pcr = 2, pca = 3, responses = [], prec = 1\<rparr>]\<rparr>"

lemma left_recursive_reaches_call:
  "steps 6 ascii left_recursive_program (parse_entry (enqueue ''a+a'' new_parser)) =
     Inr left_recursive_at_call"
  by code_simp

lemma left_recursive_reaches_ret:
  "steps 10 ascii left_recursive_program (parse_entry (enqueue ''a+a'' new_parser)) =
     Inr left_recursive_at_ret"
  by code_simp

lemma left_recursive_decode_call:
  "decode (instructions left_recursive_program) (pc left_recursive_at_call) =
     Inr ((7, 0, 1, - 4, []), 7)"
  by code_simp


text \<open>
  The same grammar with an action on each alternative,
  \<^verbatim>\<open>Expr = Expr > chr('+') > chr('a') < a0 | chr('a') < a1\<close>, and the state of its run on
  \<open>a+a\<close> at the inner call in the second turn of the grow loop: the memo holds the
  response of \<open>a1\<close> that the first turn dropped from the log.
\<close>

definition left_recursive_action_program :: program where
  "left_recursive_action_program =
     \<lparr>instructions =
        [prefix 7 64 1, offset 1, prefix 10 1 0,
         prefix 4 64 0, offset 9,
         prefix 7 64 1, offset (- 4),
         prefix 0 128 0, str4 CHR ''+'' CHR 0x00 CHR 0x00 CHR 0x00,
         prefix 0 128 0, str4 CHR ''a'' CHR 0x00 CHR 0x00 CHR 0x00,
         prefix 13 0 0,
         prefix 5 64 0, offset 3,
         prefix 0 128 0, str4 CHR ''a'' CHR 0x00 CHR 0x00 CHR 0x00,
         prefix 13 0 1,
         prefix 8 0 0],
      predicates = [], actions = [returns, returns], captures = [], matches_eps = False\<rparr>"

definition left_recursive_action_at_call :: parser where
  "left_recursive_action_at_call =
     (parse_entry (enqueue ''a+a'' new_parser))
       \<lparr>pc := 5,
        stack_frames' := [sf_backtrack, sf_lrcall],
        backtrack_stack' := [(0, 1, 1, 0, 14)],
        lrmemo_stack' :=
          [\<lparr>sr = \<lparr>subj_ir = 0, subj_cr = 1, subj_lr = 1\<rparr>,
            sa = \<lparr>subj_ir = 1, subj_cr = 2, subj_lr = 1\<rparr>,
            rcr = 0, pcr = 2, pca = 3,
            responses = [\<lparr>call_depth = 1, action_index = 1, capture_index = - 1\<rparr>],
            prec = 1\<rparr>]\<rparr>"

lemma left_recursive_action_reaches_call:
  "steps 7 ascii left_recursive_action_program (parse_entry (enqueue ''a+a'' new_parser)) =
     Inr left_recursive_action_at_call"
  by code_simp


text \<open>
  Raw programs for the instructions that find the wrong frame: a rule body \<^verbatim>\<open>choice 1;
  ret; ret\<close>, whose first \<^verbatim>\<open>ret\<close> finds a Backtrack frame; and a rule body that closes a
  capture over a cut behind two bytes, opens a second capture with a cut, and returns
  inside it.
\<close>

definition choice_ret_program :: program where
  "choice_ret_program =
     \<lparr>instructions = [prefix 7 64 0, offset 1, prefix 10 1 0, prefix 4 64 0, offset 1,
                       prefix 8 0 0, prefix 8 0 0],
      predicates = [], actions = [], captures = [], matches_eps = True\<rparr>"

definition choice_ret_at_ret :: parser where
  "choice_ret_at_ret =
     (parse_entry (enqueue ''b'' new_parser))
       \<lparr>pc := 5, stack_frames' := [sf_backtrack, sf_call], call_stack' := [2],
        backtrack_stack' := [(0, 1, 1, 0, 6)]\<rparr>"

lemma choice_ret_reaches_ret:
  "steps 2 ascii choice_ret_program (parse_entry (enqueue ''b'' new_parser)) =
     Inr choice_ret_at_ret"
  by code_simp






text \<open>
  The sequence \<^verbatim>\<open>begin_capture; accept_final; end_capture; fail\<close>, written by hand as an
  expression of the user's own (a callable on the encoder) can emit it.
\<close>

definition capture_accept_program :: program where
  "capture_accept_program =
     \<lparr>instructions = [prefix 14 0 0, prefix 10 1 0, prefix 15 0 0, prefix 9 0 0],
      predicates = [], actions = [], captures = [\<lambda>t. returns], matches_eps = True\<rparr>"

definition capture_accept_at_accept :: parser where
  "capture_accept_at_accept =
     (parse_entry new_parser)
       \<lparr>pc := 1, stack_frames' := [sf_capture],
        capture_stack' := [\<lparr>subj_ir = 0, subj_cr = 1, subj_lr = 1\<rparr>]\<rparr>"


text \<open>States of the run of the first program on the empty input: before \<^verbatim>\<open>accept_final\<close>, and after the accept.\<close>

definition and_action_at_accept :: parser where
  "and_action_at_accept =
     and_action_at_commit
       \<lparr>pc := 2, stack_frames' := [], backtrack_stack' := [], call_stack' := []\<rparr>"

definition and_action_accepted :: parser where
  "and_action_accepted =
     and_action_at_accept
       \<lparr>pc := 3, rc := 0,
        registers' := \<lparr>reg_ir = 0, reg_cr = 1, reg_lr = 1, reg_rc = 0, reg_pc = 3, reg_fc = 0\<rparr>,
        semantics' := (clear new_semantics)
          \<lparr>invoked := [on_clear, on_accept_begin, invoked_action 0, on_accept_end, on_clear]\<rparr>\<rparr>"

lemma and_action_reaches_accept:
  "steps 6 ascii and_action_program (parse_entry new_parser) = Inr and_action_at_accept"
  by code_simp

lemma and_action_decode_accept:
  "decode (instructions and_action_program) (pc and_action_at_accept) =
     Inr ((10, accept_final, 0, 0, []), 3)"
  by code_simp

lemma and_action_accept:
  "accept and_action_program (and_action_at_accept\<lparr>pc := 3, cut_deferred' := False\<rparr>) =
     Inr and_action_accepted"
  by code_simp




definition notnot_cut_program :: program where
  "notnot_cut_program =
     \<lparr>instructions =
        [prefix 7 64 0, offset 1, prefix 10 1 0, prefix 4 64 0, offset 5,
         prefix 4 64 0, offset 2, prefix 10 0 0, prefix 9 0 1, prefix 9 0 1,
         prefix 8 0 0],
      predicates = [], actions = [], captures = [], matches_eps = True\<rparr>"

definition and_match_program :: program where
  "and_match_program =
     \<lparr>instructions =
        [prefix 7 64 0, offset 1, prefix 10 1 0, prefix 4 64 0, offset 5,
         prefix 0 128 0, str4 CHR ''a'' CHR 0x00 CHR 0x00 CHR 0x00,
         prefix 13 0 0, prefix 5 65 0, offset 1, prefix 9 0 0, prefix 8 0 0],
      predicates = [], actions = [returns], captures = [], matches_eps = True\<rparr>"

definition notnot_match_program :: program where
  "notnot_match_program =
     \<lparr>instructions =
        [prefix 7 64 0, offset 1, prefix 10 1 0, prefix 4 64 0, offset 7,
         prefix 4 64 0, offset 4,
         prefix 0 128 0, str4 CHR ''a'' CHR 0x00 CHR 0x00 CHR 0x00,
         prefix 13 0 0, prefix 9 0 1, prefix 9 0 1, prefix 8 0 0],
      predicates = [], actions = [returns], captures = [], matches_eps = True\<rparr>"



lemma and_match_compiled:
  "and_then (rule ascii (e_and (e_action (chr CHR ''a'') returns))) start = Inr and_match_program"
  by (simp add: encoder_defs and_match_program_def)

lemma notnot_match_compiled:
  "and_then (rule ascii (e_not (e_not (e_action (chr CHR ''a'') returns)))) start =
     Inr notnot_match_program"
  by (simp add: encoder_defs notnot_match_program_def)

definition and_match_at_commit :: parser where
  "and_match_at_commit =
     (parse_entry (enqueue ''a'' new_parser))
       \<lparr>pc := 8, ir := 1, cr := 2, rc := 1,
        stack_frames' := [sf_backtrack, sf_call],
        backtrack_stack' := [(0, 1, 1, 0, 10)],
        call_stack' := [2],
        semantics' := (clear new_semantics)
          \<lparr>responses' := [\<lparr>call_depth = 1, action_index = 0, capture_index = - 1\<rparr>]\<rparr>\<rparr>"

definition notnot_match_at_fail :: parser where
  "notnot_match_at_fail =
     (parse_entry (enqueue ''a'' new_parser))
       \<lparr>pc := 10, ir := 1, cr := 2, rc := 1,
        stack_frames' := [sf_backtrack, sf_backtrack, sf_call],
        backtrack_stack' := [(0, 1, 1, 0, 11), (0, 1, 1, 0, 12)],
        call_stack' := [2],
        semantics' := (clear new_semantics)
          \<lparr>responses' := [\<lparr>call_depth = 1, action_index = 0, capture_index = - 1\<rparr>]\<rparr>\<rparr>"

definition notnot_cut_at_fail :: parser where
  "notnot_cut_at_fail =
     (parse_entry new_parser)
       \<lparr>pc := 8, cut_frame' := 3,
        registers' := \<lparr>reg_ir = 0, reg_cr = 1, reg_lr = 1, reg_rc = 0, reg_pc = 8, reg_fc = 0\<rparr>,
        stack_frames' := [sf_backtrack, sf_backtrack, sf_call],
        backtrack_stack' := [(0, 1, 1, 0, 9), (0, 1, 1, 0, 10)],
        call_stack' := [2],
        semantics' := (clear new_semantics)
          \<lparr>invoked := [on_clear, on_accept_begin, on_accept_end, on_clear]\<rparr>\<rparr>"

lemma and_match_reaches_commit:
  "steps 4 ascii and_match_program (parse_entry (enqueue ''a'' new_parser)) =
     Inr and_match_at_commit"
  by code_simp

lemma notnot_match_reaches_fail:
  "steps 5 ascii notnot_match_program (parse_entry (enqueue ''a'' new_parser)) =
     Inr notnot_match_at_fail"
  by code_simp

lemma notnot_cut_reaches_fail:
  "steps 4 ascii notnot_cut_program (parse_entry new_parser) = Inr notnot_cut_at_fail"
  by code_simp




text \<open>
  A rule that is one \<^verbatim>\<open>match_class\<close> instruction, as the bracket expressions of a string
  expression emit it, laid out by \<^verbatim>\<open>start\<close>; and the state of its run on \<open>a\<close> in which the
  instruction is next.
\<close>

definition match_class_program :: "8 word \<Rightarrow> 16 word \<Rightarrow> program" where
  "match_class_program alt imm =
     \<lparr>instructions = [prefix 7 64 0, offset 1, prefix 10 1 0, prefix 2 alt imm, prefix 8 0 0],
      predicates = [], actions = [], captures = [], matches_eps = False\<rparr>"

definition match_class_at_class :: parser where
  "match_class_at_class =
     (parse_entry (enqueue ''a'' new_parser))\<lparr>pc := 3, stack_frames' := [sf_call], call_stack' := [2]\<rparr>"

lemma match_class_decode:
  "decode (instructions (match_class_program match_class_sctype 0)) (pc match_class_at_class) =
     Inr ((2, match_class_sctype, 0, 0, []), 4)"
  by code_simp

lemma match_class_failure:
  "failure (match_class_program match_class_sctype 0) (match_class_at_class\<lparr>pc := 4\<rparr>) =
     Inr (match_class_at_class
            \<lparr>pc := 4, fc := 1, finished := True, stack_frames' := [], call_stack' := []\<rparr>)"
  by code_simp

text \<open>
  \<^verbatim>\<open>rule S = !!(chr a > chr b > chr c) > chr a > cut > chr b > chr x\<close>: a lookahead that
  reads three bytes, then a cut behind the first byte; and the state of its run on \<open>abc\<close>
  behind the lookahead.
\<close>

definition cut_lookahead_program :: program where
  "cut_lookahead_program =
     \<lparr>instructions =
        [prefix 7 64 0, offset 1, prefix 10 1 0,
         prefix 4 64 0, offset 10,
         prefix 4 64 0, offset 7,
         prefix 0 128 0, str4 CHR ''a'' CHR 0x00 CHR 0x00 CHR 0x00,
         prefix 0 128 0, str4 CHR ''b'' CHR 0x00 CHR 0x00 CHR 0x00,
         prefix 0 128 0, str4 CHR ''c'' CHR 0x00 CHR 0x00 CHR 0x00,
         prefix 9 0 1,
         prefix 9 0 1,
         prefix 0 128 0, str4 CHR ''a'' CHR 0x00 CHR 0x00 CHR 0x00,
         prefix 10 0 0,
         prefix 0 128 0, str4 CHR ''b'' CHR 0x00 CHR 0x00 CHR 0x00,
         prefix 0 128 0, str4 CHR ''x'' CHR 0x00 CHR 0x00 CHR 0x00,
         prefix 8 0 0],
      predicates = [], actions = [], captures = [], matches_eps = False\<rparr>"

lemma cut_lookahead_compiled:
  "and_then (rule ascii
     (e_seq (e_not (e_not (e_seq (chr CHR ''a'') (e_seq (chr CHR ''b'') (chr CHR ''c'')))))
        (e_seq (chr CHR ''a'') (e_seq cut (e_seq (chr CHR ''b'') (chr CHR ''x'')))))) start =
   Inr cut_lookahead_program"
  by (simp add: encoder_defs cut_lookahead_program_def)

definition cut_lookahead_behind_lookahead :: parser where
  "cut_lookahead_behind_lookahead =
     (parse_entry (enqueue ''abc'' new_parser))
       \<lparr>pc := 15, max_input' := \<lparr>subj_ir = 3, subj_cr = 4, subj_lr = 1\<rparr>,
        stack_frames' := [sf_call], call_stack' := [2]\<rparr>"

lemma cut_lookahead_reaches_behind_lookahead:
  "steps 7 ascii cut_lookahead_program (parse_entry (enqueue ''abc'' new_parser)) =
     Inr cut_lookahead_behind_lookahead"
  by code_simp



text \<open>
  \<^verbatim>\<open>rule S = chr x > ((chr a > chr b > cut) < f)\<close> for a capture action \<open>f\<close> (a callable taking
  the \<^verbatim>\<open>syntax\<close>) that returns: a cut inside a capture, which is deferred until
  \<^verbatim>\<open>end_capture\<close> pops the Capture frame.
\<close>

definition capture_cut_program :: program where
  "capture_cut_program =
     \<lparr>instructions =
        [prefix 7 64 0, offset 1, prefix 10 1 0,
         prefix 0 128 0, str4 CHR ''x'' CHR 0x00 CHR 0x00 CHR 0x00,
         prefix 14 0 0,
         prefix 0 128 0, str4 CHR ''a'' CHR 0x00 CHR 0x00 CHR 0x00,
         prefix 0 128 0, str4 CHR ''b'' CHR 0x00 CHR 0x00 CHR 0x00,
         prefix 10 0 0,
         prefix 15 0 0,
         prefix 8 0 0],
      predicates = [], actions = [], captures = [\<lambda>t. returns], matches_eps = False\<rparr>"

lemma capture_cut_compiled:
  "and_then (rule ascii
     (e_seq (chr CHR ''x'')
        (e_capture (e_seq (chr CHR ''a'') (e_seq (chr CHR ''b'') cut)) (\<lambda>t. returns)))) start =
   Inr capture_cut_program"
  by (simp add: encoder_defs capture_cut_program_def)



text \<open>
  \<^verbatim>\<open>rule S = chr x > chr x > ((chr a > cut) < f) > ((chr b > cut > chr y) < f)\<close> for a capture
  action \<open>f\<close> that returns: the first capture is recorded behind a deferred cut, and the
  mismatch of \<open>y\<close> is found inside the second capture, behind another deferred cut.
\<close>

definition two_capture_program :: program where
  "two_capture_program =
     \<lparr>instructions =
        [prefix 7 64 0, offset 1, prefix 10 1 0,
         prefix 0 128 0, str4 CHR ''x'' CHR 0x00 CHR 0x00 CHR 0x00,
         prefix 0 128 0, str4 CHR ''x'' CHR 0x00 CHR 0x00 CHR 0x00,
         prefix 14 0 0,
         prefix 0 128 0, str4 CHR ''a'' CHR 0x00 CHR 0x00 CHR 0x00,
         prefix 10 0 0,
         prefix 15 0 0,
         prefix 14 0 0,
         prefix 0 128 0, str4 CHR ''b'' CHR 0x00 CHR 0x00 CHR 0x00,
         prefix 10 0 0,
         prefix 0 128 0, str4 CHR ''y'' CHR 0x00 CHR 0x00 CHR 0x00,
         prefix 15 0 1,
         prefix 8 0 0],
      predicates = [], actions = [], captures = [\<lambda>t. returns, \<lambda>t. returns],
      matches_eps = False\<rparr>"

lemma two_capture_compiled:
  "and_then (rule ascii
     (e_seq (chr CHR ''x'') (e_seq (chr CHR ''x'')
        (e_seq (e_capture (e_seq (chr CHR ''a'') cut) (\<lambda>t. returns))
               (e_capture (e_seq (chr CHR ''b'') (e_seq cut (chr CHR ''y''))) (\<lambda>t. returns))))))
     start = Inr two_capture_program"
  by (simp add: encoder_defs two_capture_program_def)

text \<open>What a caller of \<^verbatim>\<open>lug::parse\<close> observes: the result and the callbacks invoked.\<close>

definition semantic_outcome ::
  "(raised + bool \<times> parser) option \<Rightarrow> (raised + bool \<times> invocation list) option" where
  "semantic_outcome r =
     (case r of
        None \<Rightarrow> None
      | Some (Inl e) \<Rightarrow> Some (Inl e)
      | Some (Inr (b, s)) \<Rightarrow> Some (Inr (b, invoked (semantics' s))))"

section \<open>Runs\<close>

lemma run_steps: "steps n X P s = Inr s1 \<Longrightarrow> run X P s = run X P s1"
proof (induction n arbitrary: s)
  case 0
  then show ?case by simp
next
  case (Suc n)
  show ?case
  proof (cases "finished s")
    case True
    with Suc.prems show ?thesis by simp
  next
    case False
    with Suc.prems obtain s2 where st: "step X P s = Inr s2" and rest: "steps n X P s2 = Inr s1"
      by (auto split: sum.splits)
    from False st have "run X P s = run X P s2"
      by (subst run.simps) simp
    with Suc.IH [OF rest] show ?thesis by simp
  qed
qed

lemma run_steps_finished:
  "steps n X P s = Inr s1 \<Longrightarrow> finished s1 \<Longrightarrow> run X P s = Some (Inr s1)"
  using run_steps [of n X P s s1] by (simp add: run.simps)

lemma run_steps_raised: "steps n X P s = Inl e \<Longrightarrow> run X P s = Some (Inl e)"
proof (induction n arbitrary: s)
  case 0
  then show ?case by simp
next
  case (Suc n)
  from Suc.prems have nf: "\<not> finished s" by (auto split: if_splits)
  show ?case
  proof (cases "step X P s")
    case (Inl e')
    with Suc.prems nf have "e' = e" by simp
    with Inl nf show ?thesis by (subst run.simps) simp
  next
    case (Inr s2)
    with Suc.prems nf have "steps n X P s2 = Inl e" by simp
    from Suc.IH [OF this] Inr nf show ?thesis by (subst run.simps) simp
  qed
qed

lemma parse_by_steps:
  assumes "steps n X P (parse_entry s) = Inr s1" "finished s1" "\<not> parsing' s" "instructions P \<noteq> []"
  shows "parse X P s = Some (Inr (result s1, s1\<lparr>parsing' := False\<rparr>))"
  using run_steps_finished [OF assms(1,2)] assms(3,4) by (simp add: parse_def)

lemma parse_by_steps_raised:
  assumes "steps n X P (parse_entry s) = Inl e" "\<not> parsing' s" "instructions P \<noteq> []"
  shows "parse X P s = Some (Inl e)"
  using run_steps_raised [OF assms(1)] assms(2,3) by (simp add: parse_def)


section \<open>Properties of the machine\<close>

subsection \<open>The commit variant \<^verbatim>\<open>commit_back\<close>\<close>

text \<open>
  C7. Executing \<^verbatim>\<open>commit\<close> with the altcode \<^verbatim>\<open>commit_back\<close> on a state whose newest frame
  is a Backtrack frame \<open>(i, c, l, r, p)\<close> restores \<open>ir, cr, lr\<close> from the frame, pops the
  frame and adds the offset to \<open>pc\<close>. The result is the old state with exactly these
  components changed (and \<^verbatim>\<open>cut_frame_\<close> capped by the new stack depth): \<open>rc\<close>, \<open>fc\<close>, the
  semantics object with its response log, the input and every other stack are as before;
  the saved response counter \<open>r\<close> of the frame is not used.
\<close>

theorem commit_back_restores_subject_only:
  assumes "decode (instructions P) (pc s) = Inr ((opb, commit_back, imm, off, str), pc1)"
      and "opcode_of opb = Some op_commit"
      and "stack_frames' s = sf_backtrack # fs"
      and "backtrack_stack' s = (i, c, l, r, p) # bs"
  shows "step X P s =
           Inr (s\<lparr>ir := i, cr := c, lr := l, pc := pc1 + off,
                  stack_frames' := fs, backtrack_stack' := bs,
                  cut_frame' := min (cut_frame' s) (length fs)\<rparr>)"
  using assms
  by (simp add: step_def exec_def exec_commit_def commit_back_def
        commit_partial_def pop_stack_frame_def drop_frame_def exec_jump_def)

theorem commit_back_witness:
  "step ascii and_action_program and_action_at_commit =
     Inr (and_action_at_commit
            \<lparr>ir := 0, cr := 1, lr := 1, pc := 10,
             stack_frames' := [sf_call], backtrack_stack' := [],
             cut_frame' := 0\<rparr>)
   \<and> rc and_action_at_commit = 1
   \<and> length (responses' (semantics' and_action_at_commit)) = 1"
  using commit_back_restores_subject_only
          [OF and_action_decode_commit, of "[sf_call]" 0 1 1 0 9 "[]" ascii]
  by (simp add: opcode_of_def opcodes_def and_action_at_commit_def parse_entry_def
        load_registers_def new_parser_def)

subsection \<open>Calls with a precedence\<close>





subsection \<open>Instructions that find the wrong frame\<close>








subsection \<open>Termination\<close>




subsection \<open>The final accept\<close>

text \<open>
  C3, as stated, fails: \<^verbatim>\<open>accept_final\<close> executed while a Capture frame is open only sets
  \<^verbatim>\<open>cut_deferred_\<close>; the loop goes on with the next instruction, and the parse below ends
  with the result false although it has executed \<^verbatim>\<open>accept_final\<close>.
\<close>

theorem accept_final_deferred_counterexample:
  "steps 1 ascii capture_accept_program (parse_entry new_parser) = Inr capture_accept_at_accept
   \<and> decode (instructions capture_accept_program) (pc capture_accept_at_accept) =
       Inr ((opcode_byte op_accept, accept_final, 0, 0, []), 2)
   \<and> step ascii capture_accept_program capture_accept_at_accept =
       Inr (capture_accept_at_accept\<lparr>pc := 2, cut_deferred' := True\<rparr>)
   \<and> finished (capture_accept_at_accept\<lparr>pc := 2, cut_deferred' := True\<rparr>) = False
   \<and> result (capture_accept_at_accept\<lparr>pc := 2, cut_deferred' := True\<rparr>) = False
   \<and> map_option (map_sum id fst) (lug_parse ascii [] capture_accept_program) = Some (Inr False)"
proof -
  have a: "steps 1 ascii capture_accept_program (parse_entry new_parser) = Inr capture_accept_at_accept"
    by code_simp
  have b: "decode (instructions capture_accept_program) (pc capture_accept_at_accept) =
       Inr ((opcode_byte op_accept, accept_final, 0, 0, []), 2)"
    by code_simp
  have c: "step ascii capture_accept_program capture_accept_at_accept =
       Inr (capture_accept_at_accept\<lparr>pc := 2, cut_deferred' := True\<rparr>)"
    by code_simp
  have d: "finished (capture_accept_at_accept\<lparr>pc := 2, cut_deferred' := True\<rparr>) = False"
          "result (capture_accept_at_accept\<lparr>pc := 2, cut_deferred' := True\<rparr>) = False"
    by (simp_all add: capture_accept_at_accept_def parse_entry_def)
  have "case steps 4 ascii capture_accept_program (parse_entry (enqueue [] new_parser)) of
          Inr s1 \<Rightarrow> finished s1 \<and> \<not> result s1 | Inl e \<Rightarrow> False"
    by code_simp
  then obtain s1 where s1: "steps 4 ascii capture_accept_program (parse_entry (enqueue [] new_parser)) = Inr s1"
      "finished s1" "\<not> result s1"
    by (auto split: sum.splits)
  from run_steps_finished [OF s1(1) s1(2)] s1(3)
  have e: "map_option (map_sum id fst) (lug_parse ascii [] capture_accept_program) = Some (Inr False)"
    by (simp add: lug_parse_def parse_def enqueue_def new_parser_def capture_accept_program_def)
  from a b c d e show ?thesis by simp
qed

text \<open>
  C3, amended. An \<^verbatim>\<open>accept\<close> with the altcode \<^verbatim>\<open>accept_final\<close> ends the loop at once with
  the result true when no Capture and no LrCall frame is open and the dispatch of the
  pending responses returns. When a Capture or an LrCall frame is open it only sets
  \<^verbatim>\<open>cut_deferred_\<close>: the loop is not finished and goes on behind the instruction.
\<close>

theorem accept_final_ends_or_defers:
  assumes "decode (instructions P) (pc s) = Inr ((opb, accept_final, imm, off, str), pc1)"
      and "opcode_of opb = Some op_accept"
      and "\<not> finished s"
  shows "(capture_stack' s = [] \<and> lrmemo_stack' s = [] \<longrightarrow>
           (\<forall>s2. accept P (s\<lparr>pc := pc1, cut_deferred' := False\<rparr>) = Inr s2 \<longrightarrow>
              step X P s = Inr (s2\<lparr>result := True, finished := True\<rparr>)
              \<and> run X P s = Some (Inr (s2\<lparr>result := True, finished := True\<rparr>))))
       \<and> (capture_stack' s \<noteq> [] \<or> lrmemo_stack' s \<noteq> [] \<longrightarrow>
           step X P s = Inr (s\<lparr>pc := pc1, cut_deferred' := True\<rparr>)
           \<and> finished (s\<lparr>pc := pc1, cut_deferred' := True\<rparr>) = False
           \<and> run X P s = run X P (s\<lparr>pc := pc1, cut_deferred' := True\<rparr>))"
proof (intro conjI impI allI)
  fix s2
  assume e: "capture_stack' s = [] \<and> lrmemo_stack' s = []"
     and a: "accept P (s\<lparr>pc := pc1, cut_deferred' := False\<rparr>) = Inr s2"
  with assms show st: "step X P s = Inr (s2\<lparr>result := True, finished := True\<rparr>)"
    by (simp add: step_def exec_def exec_accept_def)
  with assms(3) show "run X P s = Some (Inr (s2\<lparr>result := True, finished := True\<rparr>))"
    by (subst run.simps, simp, subst run.simps, simp)
next
  assume o: "capture_stack' s \<noteq> [] \<or> lrmemo_stack' s \<noteq> []"
  with assms show st: "step X P s = Inr (s\<lparr>pc := pc1, cut_deferred' := True\<rparr>)"
    by (auto simp: step_def exec_def exec_accept_def)
  from assms(3) show "finished (s\<lparr>pc := pc1, cut_deferred' := True\<rparr>) = False" by simp
  from st assms(3) show "run X P s = run X P (s\<lparr>pc := pc1, cut_deferred' := True\<rparr>)"
    by (subst run.simps) simp
qed

theorem accept_final_witness:
  "run ascii and_action_program and_action_at_accept =
     Some (Inr (and_action_accepted\<lparr>result := True, finished := True\<rparr>))"
proof -
  have nf: "\<not> finished and_action_at_accept"
    by (simp add: and_action_at_accept_def and_action_at_commit_def parse_entry_def)
  have e: "capture_stack' and_action_at_accept = [] \<and> lrmemo_stack' and_action_at_accept = []"
    by (simp add: and_action_at_accept_def and_action_at_commit_def parse_entry_def
          load_registers_def new_parser_def)
  have opc: "opcode_of 10 = Some op_accept"
    by (simp add: opcode_of_def opcodes_def)
  from accept_final_ends_or_defers [OF and_action_decode_accept opc nf, of ascii]
       e and_action_accept
  show ?thesis by blast
qed

subsection \<open>The lookaheads\<close>





subsection \<open>Character classes\<close>

text \<open>
  C1. The code diverges from the instruction as specified (compare the rune with the
  class, per altcode) in every branch, not in one: the test \<^verbatim>\<open>if (match) goto failure\<close>
  follows the switch over the altcode. Under the default altcode (class flags, as the
  bracket expression \<^verbatim>\<open>[[:alpha:]]\<close> emits it) and under \<^verbatim>\<open>match_class_sctype\<close> alike, a
  rune that the query matches makes the parse fail, and a rune that the query does not
  match is consumed.
\<close>

theorem match_class_every_branch_inverted:
  "class_query ascii 0 1 [] 97 = Inr True
   \<and> class_query ascii match_class_sctype 0 [] 97 = Inr True
   \<and> class_query ascii 0 2 [] 97 = Inr False
   \<and> decode_rune ascii ''a'' = (97, 1)
   \<and> semantic_outcome (lug_parse ascii ''a'' (match_class_program 0 1)) =
       Some (Inr (False, [on_clear]))
   \<and> semantic_outcome (lug_parse ascii ''a'' (match_class_program match_class_sctype 0)) =
       Some (Inr (False, [on_clear]))
   \<and> semantic_outcome (lug_parse ascii ''a'' (match_class_program 0 2)) =
       Some (Inr (True, [on_clear, on_accept_begin, on_accept_end, on_clear]))"
proof -
  have np: "\<not> parsing' (enqueue ''a'' new_parser)"
    by (simp add: enqueue_def new_parser_def)
  have q: "class_query ascii 0 1 [] 97 = Inr True"
          "class_query ascii match_class_sctype 0 [] 97 = Inr True"
          "class_query ascii 0 2 [] 97 = Inr False"
          "decode_rune ascii ''a'' = (97, 1)"
    by code_simp+
  have "case steps 2 ascii (match_class_program 0 1) (parse_entry (enqueue ''a'' new_parser)) of
          Inr s1 \<Rightarrow> finished s1 \<and> \<not> result s1 \<and> invoked (semantics' s1) = [on_clear]
        | Inl e \<Rightarrow> False"
    by code_simp
  then obtain s1 where s1:
      "steps 2 ascii (match_class_program 0 1) (parse_entry (enqueue ''a'' new_parser)) = Inr s1"
      "finished s1" "\<not> result s1" "invoked (semantics' s1) = [on_clear]"
    by (auto split: sum.splits)
  have a: "semantic_outcome (lug_parse ascii ''a'' (match_class_program 0 1)) =
       Some (Inr (False, [on_clear]))"
    using parse_by_steps [OF s1(1) s1(2) np] s1(3,4)
    by (simp add: lug_parse_def semantic_outcome_def match_class_program_def)
  have "case steps 2 ascii (match_class_program match_class_sctype 0)
               (parse_entry (enqueue ''a'' new_parser)) of
          Inr s1 \<Rightarrow> finished s1 \<and> \<not> result s1 \<and> invoked (semantics' s1) = [on_clear]
        | Inl e \<Rightarrow> False"
    by code_simp
  then obtain s2 where s2:
      "steps 2 ascii (match_class_program match_class_sctype 0)
         (parse_entry (enqueue ''a'' new_parser)) = Inr s2"
      "finished s2" "\<not> result s2" "invoked (semantics' s2) = [on_clear]"
    by (auto split: sum.splits)
  have b: "semantic_outcome (lug_parse ascii ''a'' (match_class_program match_class_sctype 0)) =
       Some (Inr (False, [on_clear]))"
    using parse_by_steps [OF s2(1) s2(2) np] s2(3,4)
    by (simp add: lug_parse_def semantic_outcome_def match_class_program_def)
  have "case steps 4 ascii (match_class_program 0 2) (parse_entry (enqueue ''a'' new_parser)) of
          Inr s1 \<Rightarrow> finished s1 \<and> result s1 \<and> invoked (semantics' s1) =
                     [on_clear, on_accept_begin, on_accept_end, on_clear]
        | Inl e \<Rightarrow> False"
    by code_simp
  then obtain s3 where s3:
      "steps 4 ascii (match_class_program 0 2) (parse_entry (enqueue ''a'' new_parser)) = Inr s3"
      "finished s3" "result s3"
      "invoked (semantics' s3) = [on_clear, on_accept_begin, on_accept_end, on_clear]"
    by (auto split: sum.splits)
  have c: "semantic_outcome (lug_parse ascii ''a'' (match_class_program 0 2)) =
       Some (Inr (True, [on_clear, on_accept_begin, on_accept_end, on_clear]))"
    using parse_by_steps [OF s3(1) s3(2) np] s3(3,4)
    by (simp add: lug_parse_def semantic_outcome_def match_class_program_def)
  from q a b c show ?thesis by simp
qed

text \<open>
  What the code does, for every altcode: the altcode of \<^verbatim>\<open>match_class\<close> only selects the
  query; whatever it is (\<^verbatim>\<open>ptype\<close>, \<^verbatim>\<open>gctype\<close>, \<^verbatim>\<open>sctype\<close> or the class flags), the
  instruction takes the failure path when the query of the decoded rune matches, and
  otherwise advances \<open>ir\<close> by the byte size of the rune and \<open>cr\<close> by 1.
\<close>

theorem match_class_polarity:
  assumes "decode (instructions P) (pc s) = Inr ((opb, alt, imm, off, str), pc1)"
      and "opcode_of opb = Some op_match_class"
      and "available 1 (ir s) (s\<lparr>pc := pc1\<rparr>) = Inr (True, s1)"
      and "unat (ir s1) \<le> length (input' s1)"
      and "decode_rune X (drop (unat (ir s1)) (input' s1)) = (rune, n)"
      and "class_query X alt imm str rune = Inr matched"
  shows "step X P s =
           (if matched then failure P s1
            else Inr (s1\<lparr>ir := ir s1 + of_nat n, cr := cr s1 + 1\<rparr>))"
  using assms
  by (simp add: step_def exec_def exec_match_class_def del: available.simps)

theorem match_class_polarity_witness:
  "step ascii (match_class_program match_class_sctype 0) match_class_at_class =
     Inr (match_class_at_class
            \<lparr>pc := 4, fc := 1, finished := True, stack_frames' := [], call_stack' := []\<rparr>)"
proof -
  have opc: "opcode_of 2 = Some op_match_class"
    by (simp add: opcode_of_def opcodes_def)
  have av: "available 1 (ir match_class_at_class) (match_class_at_class\<lparr>pc := 4\<rparr>) =
              Inr (True, match_class_at_class\<lparr>pc := 4\<rparr>)"
    by code_simp
  have le: "unat (ir (match_class_at_class\<lparr>pc := 4\<rparr>)) \<le> length (input' (match_class_at_class\<lparr>pc := 4\<rparr>))"
    by code_simp
  have dr: "decode_rune ascii (drop (unat (ir (match_class_at_class\<lparr>pc := 4\<rparr>)))
              (input' (match_class_at_class\<lparr>pc := 4\<rparr>))) = (97, 1)"
    by code_simp
  have q: "class_query ascii match_class_sctype 0 [] 97 = Inr True"
    by code_simp
  from match_class_polarity [OF match_class_decode opc av le dr q] match_class_failure
  show ?thesis by simp
qed

subsection \<open>What a parse raises\<close>

text \<open>
  \<open>raises_within r A\<close>: when \<open>r\<close> is a raised \<^verbatim>\<open>lug_error\<close>, it is one of \<open>A\<close>.
  \<open>stays_within r A\<close> says the same of a result that is a parser state and, when \<open>r\<close> is a
  state, that the \<^verbatim>\<open>lug_error\<close>s its sources can still throw are among \<open>A\<close>. The errors of
  the loop itself are \<open>vm_errors\<close>; \<open>thrown_by P\<close> are the \<^verbatim>\<open>lug_error\<close>s that the actions,
  the capture actions and the predicates of \<open>P\<close> can throw, with those of the sources that
  a predicate can push; \<open>source_errors srcs\<close> are those in the scripts of \<open>srcs\<close>.
\<close>

definition raises_within :: "raised + 'a \<Rightarrow> lug_error set \<Rightarrow> bool" where
  "raises_within r A \<longleftrightarrow> (\<forall>e. r = Inl (lug e) \<longrightarrow> e \<in> A)"

definition vm_errors :: "lug_error set" where
  "vm_errors = {reenterant_read_error, bad_opcode}"

definition source_errors :: "source list \<Rightarrow> lug_error set" where
  "source_errors srcs = {e. \<exists>src \<in> set srcs. Inl (lug e) \<in> set src}"

definition thrown_by :: "program \<Rightarrow> lug_error set" where
  "thrown_by P =
     {e. throws (lug e) \<in> set (actions P)}
     \<union> {e. \<exists>f \<in> set (captures P). \<exists>txt. f txt = throws (lug e)}
     \<union> {e. \<exists>p \<in> set (predicates P). \<exists>inp regs. p inp regs = Inl (lug e)}
     \<union> {e. \<exists>p \<in> set (predicates P). \<exists>inp regs b regs1 enq pushed.
             p inp regs = Inr (b, regs1, enq, pushed) \<and> e \<in> source_errors pushed}"

definition stays_within :: "raised + parser \<Rightarrow> lug_error set \<Rightarrow> bool" where
  "stays_within r A \<longleftrightarrow>
     (\<forall>e. r = Inl (lug e) \<longrightarrow> e \<in> A)
     \<and> (\<forall>s1. r = Inr s1 \<longrightarrow> source_errors (sources' s1) \<subseteq> A)"

definition stays_within_pair :: "raised + bool \<times> parser \<Rightarrow> lug_error set \<Rightarrow> bool" where
  "stays_within_pair r A \<longleftrightarrow>
     (\<forall>e. r = Inl (lug e) \<longrightarrow> e \<in> A)
     \<and> (\<forall>c s1. r = Inr (c, s1) \<longrightarrow> source_errors (sources' s1) \<subseteq> A)"

lemma raises_Inr: "raises_within (Inr x) A"
  by (simp add: raises_within_def)

lemma raises_undefined: "raises_within (Inl undefined_behaviour) A"
  by (simp add: raises_within_def)

lemma raises_out_of_range: "raises_within (Inl std_out_of_range) A"
  by (simp add: raises_within_def)

lemma raises_lug: "e \<in> A \<Longrightarrow> raises_within (Inl (lug e)) A"
  by (simp add: raises_within_def)

lemma raises_mono: "raises_within r A \<Longrightarrow> A \<subseteq> B \<Longrightarrow> raises_within r B"
  by (auto simp: raises_within_def)

lemma raises_if:
  "(c \<Longrightarrow> raises_within r1 A) \<Longrightarrow> (\<not> c \<Longrightarrow> raises_within r2 A) \<Longrightarrow>
   raises_within (if c then r1 else r2) A"
  by simp

lemma raises_sum:
  "raises_within r A \<Longrightarrow> (\<And>x. r = Inr x \<Longrightarrow> raises_within (f x) A) \<Longrightarrow>
   raises_within (case r of Inl e \<Rightarrow> Inl e | Inr x \<Rightarrow> f x) A"
  by (cases r) (auto simp: raises_within_def)

lemma raises_let: "raises_within (f x) A \<Longrightarrow> raises_within (let y = x in f y) A"
  by simp

lemmas raises_intros = raises_Inr raises_undefined raises_out_of_range raises_if raises_sum
  raises_let

lemma after_callback_action_raises:
  "a < length (actions P) \<Longrightarrow> raises_within (after_callback (actions P ! a) i sem) (thrown_by P)"
  by (cases "actions P ! a")
     (auto simp: raises_within_def after_callback_def thrown_by_def Let_def
           dest: nth_mem [of a "actions P"])

lemma after_callback_capture_raises:
  "a < length (captures P) \<Longrightarrow>
   raises_within (after_callback ((captures P ! a) txt) i sem) (thrown_by P)"
proof (cases "(captures P ! a) txt")
  case (throws x)
  assume "a < length (captures P)"
  then have "captures P ! a \<in> set (captures P)" by simp
  with throws show ?thesis
    by (auto simp: raises_within_def after_callback_def thrown_by_def Let_def)
qed (simp_all add: raises_within_def after_callback_def Let_def)

lemma accept_responses_raises: "raises_within (accept_responses P rs sem) (thrown_by P)"
proof (induction P rs sem rule: accept_responses.induct)
  case (1 P s)
  show ?case by (simp add: raises_Inr)
next
  case (2 P r rs s)
  show ?case
    by (subst accept_responses.simps)
       (intro raises_intros raises_sum after_callback_action_raises
          after_callback_capture_raises "2.IH", simp_all)
qed

lemma semantics_accept_raises: "raises_within (semantics_accept P m sem) (thrown_by P)"
  unfolding semantics_accept_def
  by (intro raises_intros accept_responses_raises)

lemma stays_Inr: "source_errors (sources' s) \<subseteq> A \<Longrightarrow> stays_within (Inr s) A"
  by (simp add: stays_within_def)

lemma stays_undefined: "stays_within (Inl undefined_behaviour) A"
  by (simp add: stays_within_def)

lemma stays_out_of_range: "stays_within (Inl std_out_of_range) A"
  by (simp add: stays_within_def)

lemma stays_lug: "e \<in> A \<Longrightarrow> stays_within (Inl (lug e)) A"
  by (simp add: stays_within_def)

lemma stays_if:
  "(c \<Longrightarrow> stays_within r1 A) \<Longrightarrow> (\<not> c \<Longrightarrow> stays_within r2 A) \<Longrightarrow>
   stays_within (if c then r1 else r2) A"
  by simp

lemma stays_sum:
  assumes "stays_within r A"
      and "\<And>x. r = Inr x \<Longrightarrow> source_errors (sources' x) \<subseteq> A \<Longrightarrow> stays_within (f x) A"
  shows "stays_within (case r of Inl e \<Rightarrow> Inl e | Inr x \<Rightarrow> f x) A"
proof (cases r)
  case (Inl e)
  with assms(1) show ?thesis by (simp add: stays_within_def)
next
  case (Inr x)
  with assms(1) have "source_errors (sources' x) \<subseteq> A" by (simp add: stays_within_def)
  from assms(2) [OF Inr this] Inr show ?thesis by simp
qed

lemma stays_sum_pair:
  assumes "stays_within_pair r A"
      and "\<And>c x. r = Inr (c, x) \<Longrightarrow> source_errors (sources' x) \<subseteq> A \<Longrightarrow> stays_within (f c x) A"
  shows "stays_within (case r of Inl e \<Rightarrow> Inl e | Inr (c, x) \<Rightarrow> f c x) A"
proof (cases r)
  case (Inl e)
  with assms(1) show ?thesis by (simp add: stays_within_def stays_within_pair_def)
next
  case (Inr p)
  obtain c x where p: "p = (c, x)" by (cases p)
  with Inr assms(1) have "source_errors (sources' x) \<subseteq> A" by (simp add: stays_within_pair_def)
  from assms(2) [of c x] Inr p this show ?thesis by simp
qed

lemma stays_sum_semantics:
  assumes "raises_within r A" and "\<And>x. r = Inr x \<Longrightarrow> stays_within (f x) A"
  shows "stays_within (case r :: raised + semantics of Inl e \<Rightarrow> Inl e | Inr x \<Rightarrow> f x) A"
proof (cases r)
  case (Inl e)
  with assms(1) show ?thesis by (simp add: stays_within_def raises_within_def)
next
  case (Inr x)
  from assms(2) [OF Inr] Inr show ?thesis by simp
qed

lemma stays_sum_bool:
  assumes "raises_within r A" and "\<And>x. r = Inr x \<Longrightarrow> stays_within (f x) A"
  shows "stays_within (case r :: raised + bool of Inl e \<Rightarrow> Inl e | Inr x \<Rightarrow> f x) A"
proof (cases r)
  case (Inl e)
  with assms(1) show ?thesis by (simp add: stays_within_def raises_within_def)
next
  case (Inr x)
  from assms(2) [OF Inr] Inr show ?thesis by simp
qed

lemma stays_prod:
  "(\<And>x y. p = (x, y) \<Longrightarrow> stays_within (f x y) A) \<Longrightarrow>
   stays_within (case p of (x, y) \<Rightarrow> f x y) A"
  by (cases p) simp

lemma stays_list:
  "(xs = [] \<Longrightarrow> stays_within r A) \<Longrightarrow> (\<And>y ys. xs = y # ys \<Longrightarrow> stays_within (f y ys) A) \<Longrightarrow>
   stays_within (case xs of [] \<Rightarrow> r | y # ys \<Rightarrow> f y ys) A"
  by (cases xs) simp_all

lemma stays_option:
  "(x = None \<Longrightarrow> stays_within r A) \<Longrightarrow> (\<And>y. x = Some y \<Longrightarrow> stays_within (f y) A) \<Longrightarrow>
   stays_within (case x of None \<Rightarrow> r | Some y \<Rightarrow> f y) A"
  by (cases x) simp_all

lemma stays_frame:
  "stays_within r1 A \<Longrightarrow> stays_within r2 A \<Longrightarrow> stays_within r3 A \<Longrightarrow> stays_within r4 A \<Longrightarrow>
   stays_within (case t of sf_backtrack \<Rightarrow> r1 | sf_call \<Rightarrow> r2 | sf_capture \<Rightarrow> r3
                         | sf_lrcall \<Rightarrow> r4) A"
  by (cases t) simp_all

lemma stays_let: "stays_within (f x) A \<Longrightarrow> stays_within (let y = x in f y) A"
  by simp

lemmas stays_intros = stays_Inr stays_undefined stays_out_of_range stays_if stays_sum
  stays_sum_pair stays_sum_semantics stays_sum_bool stays_prod stays_list stays_option
  stays_frame stays_let

lemma accept_stays:
  "thrown_by P \<subseteq> A \<Longrightarrow> source_errors (sources' s) \<subseteq> A \<Longrightarrow> stays_within (accept P s) A"
  unfolding accept_def
  by (intro stays_intros raises_mono [OF semantics_accept_raises])
     (simp_all add: save_registers_def)

lemma pop_stack_frame_stays:
  "thrown_by P \<subseteq> A \<Longrightarrow> source_errors (sources' s) \<subseteq> A \<Longrightarrow>
   stays_within (pop_stack_frame P which s) A"
  unfolding pop_stack_frame_def deferred_accept_def
  by (intro stays_intros accept_stays) (simp_all add: drop_frame_def)

lemma unwind_frame_stays:
  "thrown_by P \<subseteq> A \<Longrightarrow> source_errors (sources' s) \<subseteq> A \<Longrightarrow>
   stays_within (unwind_frame P s) A"
  unfolding unwind_frame_def
  by (intro stays_intros pop_stack_frame_stays) simp_all

lemma fail_loop_stays:
  "thrown_by P \<subseteq> A \<Longrightarrow> source_errors (sources' s) \<subseteq> A \<Longrightarrow> stays_within (fail_loop P s) A"
proof (induction P s rule: fail_loop.induct)
  case (1 P s)
  show ?case
    by (subst fail_loop.simps)
       (intro stays_intros unwind_frame_stays "1.IH", simp_all add: "1.prems")
qed

lemma failure_stays:
  "thrown_by P \<subseteq> A \<Longrightarrow> source_errors (sources' s) \<subseteq> A \<Longrightarrow> stays_within (failure P s) A"
  unfolding failure_def
  by (intro stays_intros fail_loop_stays) (simp_all add: note_max_input_def)

lemma source_errors_Nil: "source_errors [] = {}"
  by (simp add: source_errors_def)

lemma source_errors_Cons:
  "source_errors (src # srcs) = {e. Inl (lug e) \<in> set src} \<union> source_errors srcs"
  by (auto simp: source_errors_def)

lemma source_errors_append:
  "source_errors (xs @ ys) = source_errors xs \<union> source_errors ys"
  by (auto simp: source_errors_def)

lemma read_sources_stays:
  "(\<forall>e. read_sources inp srcs = Inl (lug e) \<longrightarrow> e \<in> source_errors srcs)
   \<and> (\<forall>tx inp1 srcs1. read_sources inp srcs = Inr (tx, inp1, srcs1)
         \<longrightarrow> source_errors srcs1 \<subseteq> source_errors srcs)"
proof (induction inp srcs rule: read_sources.induct)
  case (1 inp)
  show ?case by (simp add: source_errors_Nil)
next
  case (2 inp srcs)
  have "source_errors srcs \<subseteq> source_errors ([] # srcs)"
    by (simp add: source_errors_Cons)
  with 2 show ?case by simp blast
next
  case (3 inp x replies srcs)
  show ?case by (simp add: source_errors_Cons)
next
  case (4 inp tx again replies srcs)
  define srcs0 where "srcs0 = (if again then replies # srcs else srcs)"
  have sub: "source_errors srcs0 \<subseteq> source_errors ((Inr (tx, again) # replies) # srcs)"
    by (auto simp: srcs0_def source_errors_Cons)
  show ?case
  proof (cases "tx = []")
    case True
    from 4 [OF refl refl True]
    have IH: "(\<forall>e. read_sources (inp @ tx) srcs0 = Inl (lug e) \<longrightarrow> e \<in> source_errors srcs0)
       \<and> (\<forall>ty inp1 srcs1. read_sources (inp @ tx) srcs0 = Inr (ty, inp1, srcs1)
             \<longrightarrow> source_errors srcs1 \<subseteq> source_errors srcs0)"
      by (simp add: srcs0_def)
    have eq: "read_sources inp ((Inr (tx, again) # replies) # srcs) = read_sources (inp @ tx) srcs0"
      using True by (simp add: srcs0_def Let_def)
    from IH sub show ?thesis unfolding eq by blast
  next
    case False
    then have "read_sources inp ((Inr (tx, again) # replies) # srcs) = Inr (tx, inp @ tx, srcs0)"
      by (simp add: srcs0_def Let_def)
    with sub show ?thesis by simp
  qed
qed

lemma read_more_stays:
  assumes "reenterant_read_error \<in> A" "source_errors (sources' s) \<subseteq> A"
  shows "stays_within_pair (read_more s) A"
proof (cases "reading' s")
  case True
  with assms(1) show ?thesis by (simp add: read_more_def stays_within_pair_def)
next
  case False
  note rs = read_sources_stays [of "input' s" "sources' s"]
  show ?thesis
  proof (cases "read_sources (input' s) (sources' s)")
    case (Inl x)
    have "e \<in> A" if "x = lug e" for e
    proof -
      from rs Inl that have "e \<in> source_errors (sources' s)" by simp
      with assms(2) show ?thesis by blast
    qed
    with False Inl show ?thesis by (simp add: read_more_def stays_within_pair_def)
  next
    case (Inr p)
    obtain tx inp srcs where p: "p = (tx, inp, srcs)" by (cases p)
    from rs Inr p have "source_errors srcs \<subseteq> source_errors (sources' s)" by simp
    with assms(2) have "source_errors srcs \<subseteq> A" by blast
    with False Inr p show ?thesis by (simp add: read_more_def stays_within_pair_def)
  qed
qed

lemma available_stays:
  "reenterant_read_error \<in> A \<Longrightarrow> source_errors (sources' s) \<subseteq> A \<Longrightarrow>
   stays_within_pair (available n i s) A"
proof (induction n i s rule: available.induct)
  case (1 n i s)
  note rm = read_more_stays [OF "1.prems"]
  show ?case
  proof (cases "n \<le> of_nat (length (input' s)) - i \<or> i < of_nat (length (input' s))")
    case True
    with "1.prems" show ?thesis
      by (subst available.simps) (auto simp: stays_within_pair_def)
  next
    case False
    show ?thesis
    proof (cases "read_more s")
      case (Inl x)
      with False rm show ?thesis
        by (subst available.simps) (auto simp: stays_within_pair_def)
    next
      case (Inr p)
      obtain again s1 where p: "p = (again, s1)" by (cases p)
      with Inr rm have s1: "source_errors (sources' s1) \<subseteq> A"
        by (simp add: stays_within_pair_def)
      show ?thesis
      proof (cases again)
        case True
        with False Inr p have "stays_within_pair (available n i s1) A"
          by (intro "1.IH" "1.prems"(1) s1) auto
        with False Inr p True show ?thesis by (subst available.simps) simp
      next
        case no: False
        with False Inr p s1 show ?thesis
          by (subst available.simps) (simp add: stays_within_pair_def)
      qed
    qed
  qed
qed

lemma class_query_raises: "bad_opcode \<in> A \<Longrightarrow> raises_within (class_query X alt imm str rune) A"
  unfolding class_query_def
  by (intro raises_intros raises_lug)

lemmas vm_rules = stays_intros failure_stays available_stays pop_stack_frame_stays accept_stays
  class_query_raises

lemma vm_errors_subset:
  "vm_errors \<subseteq> A \<Longrightarrow> reenterant_read_error \<in> A"
  "vm_errors \<subseteq> A \<Longrightarrow> bad_opcode \<in> A"
  by (auto simp: vm_errors_def)

lemma exec_match_stays:
  "vm_errors \<subseteq> A \<Longrightarrow> thrown_by P \<subseteq> A \<Longrightarrow> source_errors (sources' s) \<subseteq> A \<Longrightarrow>
   stays_within (exec_match P imm str s) A"
  unfolding exec_match_def by (intro vm_rules) (simp_all add: vm_errors_subset)

lemma exec_match_any_stays:
  "vm_errors \<subseteq> A \<Longrightarrow> thrown_by P \<subseteq> A \<Longrightarrow> source_errors (sources' s) \<subseteq> A \<Longrightarrow>
   stays_within (exec_match_any X P s) A"
  unfolding exec_match_any_def by (intro vm_rules) (simp_all add: vm_errors_subset)

lemma exec_match_class_stays:
  "vm_errors \<subseteq> A \<Longrightarrow> thrown_by P \<subseteq> A \<Longrightarrow> source_errors (sources' s) \<subseteq> A \<Longrightarrow>
   stays_within (exec_match_class X P alt imm str s) A"
  unfolding exec_match_class_def by (intro vm_rules) (simp_all add: vm_errors_subset)

lemma exec_match_range_stays:
  "vm_errors \<subseteq> A \<Longrightarrow> thrown_by P \<subseteq> A \<Longrightarrow> source_errors (sources' s) \<subseteq> A \<Longrightarrow>
   stays_within (exec_match_range X P imm str s) A"
  unfolding exec_match_range_def by (intro vm_rules) (simp_all add: vm_errors_subset)

lemma exec_choice_stays:
  "source_errors (sources' s) \<subseteq> A \<Longrightarrow> stays_within (exec_choice imm off s) A"
  unfolding exec_choice_def by (intro vm_rules) simp_all

lemma exec_jump_stays:
  "source_errors (sources' s) \<subseteq> A \<Longrightarrow> stays_within (exec_jump off s) A"
  unfolding exec_jump_def by (intro vm_rules) simp_all

lemma exec_commit_stays:
  "thrown_by P \<subseteq> A \<Longrightarrow> source_errors (sources' s) \<subseteq> A \<Longrightarrow>
   stays_within (exec_commit P alt off s) A"
  unfolding exec_commit_def by (intro vm_rules exec_jump_stays) simp_all

lemma exec_call_stays:
  "thrown_by P \<subseteq> A \<Longrightarrow> source_errors (sources' s) \<subseteq> A \<Longrightarrow>
   stays_within (exec_call P imm off s) A"
  unfolding exec_call_def by (intro vm_rules) simp_all

lemma exec_ret_stays:
  "thrown_by P \<subseteq> A \<Longrightarrow> source_errors (sources' s) \<subseteq> A \<Longrightarrow>
   stays_within (exec_ret P s) A"
  unfolding exec_ret_def by (intro vm_rules) simp_all

lemma exec_fail_stays:
  "thrown_by P \<subseteq> A \<Longrightarrow> source_errors (sources' s) \<subseteq> A \<Longrightarrow>
   stays_within (exec_fail P imm s) A"
  unfolding exec_fail_def by (intro vm_rules) simp_all

lemma exec_accept_stays:
  "thrown_by P \<subseteq> A \<Longrightarrow> source_errors (sources' s) \<subseteq> A \<Longrightarrow>
   stays_within (exec_accept P alt s) A"
  unfolding exec_accept_def by (intro vm_rules) simp_all

lemma exec_newline_stays:
  "source_errors (sources' s) \<subseteq> A \<Longrightarrow> stays_within (exec_newline s) A"
  unfolding exec_newline_def by (intro vm_rules) simp_all

lemma exec_action_stays:
  "source_errors (sources' s) \<subseteq> A \<Longrightarrow> stays_within (exec_action imm s) A"
  unfolding exec_action_def by (intro vm_rules) simp_all

lemma exec_begin_capture_stays:
  "source_errors (sources' s) \<subseteq> A \<Longrightarrow> stays_within (exec_begin_capture s) A"
  unfolding exec_begin_capture_def by (intro vm_rules) simp_all

lemma exec_end_capture_stays:
  "thrown_by P \<subseteq> A \<Longrightarrow> source_errors (sources' s) \<subseteq> A \<Longrightarrow>
   stays_within (exec_end_capture P imm s) A"
  unfolding exec_end_capture_def by (intro vm_rules) simp_all

text \<open>
  A predicate can throw, and the sources it pushes can throw when they are read later;
  both are among \<open>thrown_by P\<close>.
\<close>

lemma exec_predicate_stays:
  assumes "thrown_by P \<subseteq> A" "source_errors (sources' s) \<subseteq> A"
  shows "stays_within (exec_predicate P imm s) A"
proof (cases "length (predicates P) \<le> unat imm")
  case True
  then show ?thesis by (simp add: exec_predicate_def Let_def stays_undefined)
next
  case False
  define s0 where "s0 = note_max_input (save_registers s)"
  have src0: "sources' s0 = sources' s"
    by (simp add: s0_def note_max_input_def save_registers_def)
  from False have mem: "predicates P ! unat imm \<in> set (predicates P)" by simp
  show ?thesis
  proof (cases "(predicates P ! unat imm) (input' s0) (registers' s0)")
    case (Inl x)
    have "e \<in> A" if "x = lug e" for e
    proof -
      from mem Inl that have "e \<in> thrown_by P" by (auto simp: thrown_by_def)
      with assms(1) show ?thesis by blast
    qed
    with False Inl show ?thesis
      unfolding exec_predicate_def s0_def [symmetric] Let_def
      by (simp add: stays_within_def)
  next
    case (Inr p)
    obtain accepted regs enq pushed where p: "p = (accepted, regs, enq, pushed)"
      by (cases p)
    from mem Inr p have "source_errors pushed \<subseteq> thrown_by P"
      by (auto simp: thrown_by_def)
    with assms src0 have "source_errors (pushed @ sources' s0) \<subseteq> A"
      by (auto simp: source_errors_append)
    define s3 where "s3 = (load_registers (s0\<lparr>registers' := regs, input' := input' s0 @ enq,
                                             sources' := pushed @ sources' s0\<rparr>))
                           \<lparr>semantics' := pop_responses_after (reg_rc regs) (semantics' s0)\<rparr>"
    have "source_errors (sources' s3) \<subseteq> A"
      using \<open>source_errors (pushed @ sources' s0) \<subseteq> A\<close>
      by (simp add: s3_def load_registers_def)
    with assms(1) have "stays_within (failure P s3) A" "stays_within (Inr s3) A"
      by (auto intro: failure_stays stays_Inr)
    with exec_predicate_unfold [OF Inr [unfolded p] s0_def False]
    show ?thesis
      unfolding s3_def [symmetric] by (cases accepted) simp_all
  qed
qed

lemma exec_stays:
  assumes "vm_errors \<subseteq> A" "thrown_by P \<subseteq> A" "source_errors (sources' s) \<subseteq> A"
  shows "stays_within (exec X P opb alt imm off str s) A"
proof (cases "opcode_of opb")
  case None
  with assms(1) show ?thesis by (simp add: exec_def stays_lug vm_errors_subset)
next
  case (Some opc)
  with assms show ?thesis
    by (cases opc)
       (simp_all add: exec_def exec_match_stays exec_match_any_stays exec_match_class_stays
          exec_match_range_stays exec_choice_stays exec_commit_stays exec_jump_stays
          exec_call_stays exec_ret_stays exec_fail_stays exec_accept_stays
          exec_newline_stays exec_predicate_stays exec_action_stays
          exec_begin_capture_stays exec_end_capture_stays)
qed

lemma str_bytes_raises: "raises_within (str_bytes ws) {}"
  by (induction ws rule: str_bytes.induct) (auto simp: raises_within_def split: sum.splits)

lemma decode_raises: "raises_within (decode code pc0) {}"
  unfolding raises_within_def decode_def Let_def
  using str_bytes_raises [unfolded raises_within_def]
  by (auto split: if_splits instruction.splits sum.splits prod.splits)

lemma step_stays:
  assumes "vm_errors \<subseteq> A" "thrown_by P \<subseteq> A" "source_errors (sources' s) \<subseteq> A"
  shows "stays_within (step X P s) A"
proof (cases "decode (instructions P) (pc s)")
  case (Inl x)
  with decode_raises [of "instructions P" "pc s"] show ?thesis
    by (auto simp: step_def stays_within_def raises_within_def)
next
  case (Inr d)
  obtain opb alt imm off str pc1 where d: "d = ((opb, alt, imm, off, str), pc1)"
    by (cases d) auto
  from assms(3) have "source_errors (sources' (s\<lparr>pc := pc1\<rparr>)) \<subseteq> A" by simp
  from exec_stays [OF assms(1,2) this] Inr d show ?thesis by (simp add: step_def)
qed

lemma steps_raises:
  assumes "vm_errors \<subseteq> A" "thrown_by P \<subseteq> A"
  shows "source_errors (sources' s) \<subseteq> A \<Longrightarrow> stays_within (steps n X P s) A"
proof (induction n arbitrary: s)
  case 0
  then show ?case by (simp add: stays_Inr)
next
  case (Suc n)
  show ?case
  proof (cases "finished s")
    case True
    with Suc.prems show ?thesis by (simp add: stays_Inr)
  next
    case False
    note st = step_stays [OF assms Suc.prems, of X]
    show ?thesis
    proof (cases "step X P s")
      case (Inl x)
      with st False show ?thesis by (simp add: stays_within_def)
    next
      case (Inr s1)
      with st have "source_errors (sources' s1) \<subseteq> A" by (simp add: stays_within_def)
      from Suc.IH [OF this] False Inr show ?thesis by simp
    qed
  qed
qed















































subsection \<open>The furthest position\<close>

text \<open>
  \<open>no_retreat s s1\<close>: the callbacks invoked in \<open>s\<close> are a prefix of those invoked in \<open>s1\<close>,
  and when none was added (no cut has committed in between) \<^verbatim>\<open>max_input_\<close> is either
  unchanged or has a strictly greater byte index.
\<close>

definition no_retreat :: "parser \<Rightarrow> parser \<Rightarrow> bool" where
  "no_retreat s s1 \<longleftrightarrow>
     (\<exists>xs. invoked (semantics' s1) = invoked (semantics' s) @ xs)
     \<and> (invoked (semantics' s1) = invoked (semantics' s)
          \<longrightarrow> max_input' s1 = max_input' s
              \<or> subj_ir (max_input' s) < subj_ir (max_input' s1))"

lemma no_retreat_refl: "no_retreat s s"
  by (simp add: no_retreat_def)

lemma no_retreat_trans: "no_retreat s s1 \<Longrightarrow> no_retreat s1 s2 \<Longrightarrow> no_retreat s s2"
  by (fastforce simp: no_retreat_def)

lemma no_retreat_same:
  "invoked (semantics' s1) = invoked (semantics' s) \<Longrightarrow> max_input' s1 = max_input' s \<Longrightarrow>
   no_retreat s s1"
  by (simp add: no_retreat_def)

lemma no_retreat_cong:
  "invoked (semantics' s2) = invoked (semantics' s1) \<Longrightarrow> max_input' s2 = max_input' s1 \<Longrightarrow>
   no_retreat s s1 \<Longrightarrow> no_retreat s s2"
  by (simp add: no_retreat_def)

lemma no_retreat_pre:
  "invoked (semantics' s0) = invoked (semantics' s) \<Longrightarrow> max_input' s0 = max_input' s \<Longrightarrow>
   no_retreat s0 s1 \<Longrightarrow> no_retreat s s1"
  by (simp add: no_retreat_def)

lemma invoked_pop_responses_after [simp]:
  "invoked (pop_responses_after n sem) = invoked sem"
  by (simp add: pop_responses_after_def)

lemma invoked_restore_responses_after:
  "restore_responses_after n rs sem = (m, sem1) \<Longrightarrow> invoked sem1 = invoked sem"
  by (auto simp: restore_responses_after_def Let_def)

lemma invoked_drop_responses_after:
  "drop_responses_after n sem = (rs, sem1) \<Longrightarrow> invoked sem1 = invoked sem"
  by (auto simp: drop_responses_after_def split: if_splits)

lemma invoked_push_response:
  "push_response d a c sem = (m, sem1) \<Longrightarrow> invoked sem1 = invoked sem"
  by (auto simp: push_response_def Let_def)

lemma invoked_push_capture_response:
  "push_capture_response d a r sem = (m, sem1) \<Longrightarrow> invoked sem1 = invoked sem"
  by (auto simp: push_capture_response_def Let_def dest: invoked_push_response)

lemma after_callback_invoked:
  "after_callback u i sem = Inr sem1 \<Longrightarrow> invoked sem1 = invoked sem @ [i]"
  by (cases u) (auto simp: after_callback_def Let_def)

lemma accept_responses_invoked:
  "accept_responses P rs sem = Inr sem1 \<Longrightarrow> \<exists>xs. invoked sem1 = invoked sem @ xs"
proof (induction rs arbitrary: sem)
  case Nil
  then show ?case by simp
next
  case (Cons r rs)
  from Cons.prems consider
      (skip) "accept_responses P rs sem = Inr sem1"
    | (call) u i s2 where
        "after_callback u i (sem\<lparr>prune_depth' := - 1, call_depth' := call_depth r\<rparr>) = Inr s2"
        "accept_responses P rs s2 = Inr sem1"
    by (auto simp: Let_def split: if_splits sum.splits)
  then show ?case
  proof cases
    case skip
    then show ?thesis by (rule Cons.IH)
  next
    case call
    from after_callback_invoked [OF call(1)] have "invoked s2 = invoked sem @ [i]" by simp
    moreover from Cons.IH [OF call(2)] obtain xs where "invoked sem1 = invoked s2 @ xs" ..
    ultimately show ?thesis by simp
  qed
qed

lemma semantics_accept_invoked:
  "semantics_accept P m sem = Inr sem1 \<Longrightarrow> invoked sem1 \<noteq> invoked sem \<and> (\<exists>xs. invoked sem1 = invoked sem @ xs)"
  by (auto simp: semantics_accept_def clear_def split: sum.splits dest!: accept_responses_invoked)

lemma accept_no_retreat: "accept P s = Inr s1 \<Longrightarrow> no_retreat s s1"
  by (auto simp: accept_def save_registers_def Let_def no_retreat_def
           split: sum.splits dest!: semantics_accept_invoked)

lemma pop_stack_frame_no_retreat: "pop_stack_frame P which s = Inr s1 \<Longrightarrow> no_retreat s s1"
proof (cases which)
  case sf_backtrack
  assume "pop_stack_frame P which s = Inr s1"
  with sf_backtrack show ?thesis
    by (auto simp: pop_stack_frame_def drop_frame_def split: if_splits intro: no_retreat_same)
next
  case sf_call
  assume "pop_stack_frame P which s = Inr s1"
  with sf_call show ?thesis
    by (auto simp: pop_stack_frame_def drop_frame_def split: if_splits intro: no_retreat_same)
next
  case sf_capture
  assume "pop_stack_frame P which s = Inr s1"
  with sf_capture show ?thesis
    by (auto simp: pop_stack_frame_def deferred_accept_def drop_frame_def split: if_splits
             intro: no_retreat_same
             elim!: no_retreat_pre [rotated 2, OF accept_no_retreat])
next
  case sf_lrcall
  assume "pop_stack_frame P which s = Inr s1"
  with sf_lrcall show ?thesis
    by (auto simp: pop_stack_frame_def deferred_accept_def drop_frame_def split: if_splits
             intro: no_retreat_same
             elim!: no_retreat_pre [rotated 2, OF accept_no_retreat])
qed

lemma unwind_frame_no_retreat: "unwind_frame P s = Inr s1 \<Longrightarrow> no_retreat s s1"
  by (cases "hd (stack_frames' s)")
     (auto simp: unwind_frame_def split: list.splits sum.splits prod.splits if_splits
           dest!: pop_stack_frame_no_retreat invoked_restore_responses_after
           elim: no_retreat_pre [rotated 2] no_retreat_cong [rotated 2])


lemma fail_loop_no_retreat: "fail_loop P s = Inr s1 \<Longrightarrow> no_retreat s s1"
proof (induction P s rule: fail_loop.induct)
  case (1 P s)
  show ?case
  proof (cases "0 < fc s \<and> \<not> length (stack_frames' s) \<le> cut_frame' s")
    case False
    with "1.prems" show ?thesis
      by (subst (asm) fail_loop.simps) (auto split: if_splits intro: no_retreat_same)
  next
    case True
    with "1.prems" obtain s2 where u: "unwind_frame P (s\<lparr>finished := False\<rparr>) = Inr s2"
      and r: "fail_loop P (s2\<lparr>fc := fc s2 - 1\<rparr>) = Inr s1"
      by (subst (asm) fail_loop.simps) (auto split: sum.splits)
    from True u r have "no_retreat (s2\<lparr>fc := fc s2 - 1\<rparr>) s1"
      by (intro "1.IH") auto
    then have "no_retreat s2 s1"
      by (rule no_retreat_pre [rotated 2]) simp_all
    moreover from unwind_frame_no_retreat [OF u] have "no_retreat s s2"
      by (rule no_retreat_pre [rotated 2]) simp_all
    ultimately show ?thesis by (rule no_retreat_trans [rotated])
  qed
qed

lemma note_max_input_no_retreat: "no_retreat s (note_max_input s)"
  by (auto simp: note_max_input_def no_retreat_def)

lemma failure_no_retreat: "failure P s = Inr s1 \<Longrightarrow> no_retreat s s1"
proof -
  assume "failure P s = Inr s1"
  then obtain s2 where f: "fail_loop P ((note_max_input s)\<lparr>fc := fc (note_max_input s) + 1\<rparr>) = Inr s2"
    and e: "s1 = s2\<lparr>semantics' := pop_responses_after (rc s2) (semantics' s2)\<rparr>"
    by (auto simp: failure_def Let_def split: sum.splits)
  from fail_loop_no_retreat [OF f] have "no_retreat (note_max_input s) s2"
    by (rule no_retreat_pre [rotated 2]) simp_all
  with note_max_input_no_retreat have "no_retreat s s2" by (rule no_retreat_trans)
  then show ?thesis unfolding e by (rule no_retreat_cong [rotated 2]) simp_all
qed

lemma read_more_no_retreat: "read_more s = Inr (b, s1) \<Longrightarrow> no_retreat s s1"
  by (auto simp: read_more_def split: if_splits sum.splits prod.splits intro: no_retreat_same)

lemma available_no_retreat: "available n i s = Inr (b, s1) \<Longrightarrow> no_retreat s s1"
proof (induction n i s rule: available.induct)
  case (1 n i s)
  show ?case
  proof (cases "n \<le> of_nat (length (input' s)) - i \<or> i < of_nat (length (input' s))")
    case True
    with "1.prems" have "s1 = s"
      by (subst (asm) available.simps) (auto split: if_splits)
    then show ?thesis by (simp add: no_retreat_refl)
  next
    case False
    with "1.prems" obtain again s2 where rm: "read_more s = Inr (again, s2)"
      and rest: "if again then available n i s2 = Inr (b, s1) else s1 = s2"
      by (subst (asm) available.simps) (auto split: sum.splits if_splits)
    show ?thesis
    proof (cases again)
      case True
      with rest have "available n i s2 = Inr (b, s1)" by simp
      with False rm True have "no_retreat s2 s1"
        by (intro "1.IH") auto
      with read_more_no_retreat [OF rm] show ?thesis by (rule no_retreat_trans)
    next
      case False
      with rest read_more_no_retreat [OF rm] show ?thesis by simp
    qed
  qed
qed

lemma after_available_no_retreat:
  assumes av: "available n i s = Inr (ok, s2)"
      and cases: "failure P s2 = Inr s1
                  \<or> (\<exists>s3. s1 = s3 \<and> invoked (semantics' s3) = invoked (semantics' s2)
                            \<and> max_input' s3 = max_input' s2)"
  shows "no_retreat s s1"
proof -
  from available_no_retreat [OF av] have a: "no_retreat s s2" .
  from cases show ?thesis
  proof
    assume "failure P s2 = Inr s1"
    from a failure_no_retreat [OF this] show ?thesis by (rule no_retreat_trans)
  next
    assume "\<exists>s3. s1 = s3 \<and> invoked (semantics' s3) = invoked (semantics' s2)
                            \<and> max_input' s3 = max_input' s2"
    with a show ?thesis by (auto elim: no_retreat_cong [rotated 2])
  qed
qed

lemma exec_match_no_retreat: "exec_match P imm str s = Inr s1 \<Longrightarrow> no_retreat s s1"
proof (cases "str = []")
  case True
  assume "exec_match P imm str s = Inr s1"
  with True show ?thesis by (simp add: exec_match_def no_retreat_refl)
next
  case False
  assume e: "exec_match P imm str s = Inr s1"
  with False obtain ok s2 where av: "available (of_nat (length str)) (ir s) s = Inr (ok, s2)"
    by (auto simp: exec_match_def split: sum.splits)
  with e False have "failure P s2 = Inr s1
      \<or> (\<exists>s3. s1 = s3 \<and> invoked (semantics' s3) = invoked (semantics' s2)
                \<and> max_input' s3 = max_input' s2)"
    by (auto simp: exec_match_def split: if_splits)
  with av show ?thesis by (rule after_available_no_retreat)
qed

lemma exec_match_any_no_retreat: "exec_match_any X P s = Inr s1 \<Longrightarrow> no_retreat s s1"
proof -
  assume e: "exec_match_any X P s = Inr s1"
  then obtain ok s2 where av: "available 1 (ir s) s = Inr (ok, s2)"
    by (auto simp: exec_match_any_def split: sum.splits)
  with e have "failure P s2 = Inr s1
      \<or> (\<exists>s3. s1 = s3 \<and> invoked (semantics' s3) = invoked (semantics' s2)
                \<and> max_input' s3 = max_input' s2)"
    by (auto simp: exec_match_any_def split: if_splits)
  with av show ?thesis by (rule after_available_no_retreat)
qed

lemma exec_match_class_no_retreat:
  "exec_match_class X P alt imm str s = Inr s1 \<Longrightarrow> no_retreat s s1"
proof -
  assume e: "exec_match_class X P alt imm str s = Inr s1"
  then obtain ok s2 where av: "available 1 (ir s) s = Inr (ok, s2)"
    by (auto simp: exec_match_class_def split: sum.splits)
  with e have "failure P s2 = Inr s1
      \<or> (\<exists>s3. s1 = s3 \<and> invoked (semantics' s3) = invoked (semantics' s2)
                \<and> max_input' s3 = max_input' s2)"
    by (auto simp: exec_match_class_def split: if_splits prod.splits sum.splits)
  with av show ?thesis by (rule after_available_no_retreat)
qed

lemma exec_match_range_no_retreat:
  "exec_match_range X P imm str s = Inr s1 \<Longrightarrow> no_retreat s s1"
proof -
  assume e: "exec_match_range X P imm str s = Inr s1"
  then obtain ok s2 where
    av: "available (of_nat (min (length (take (unat imm) str)) (length (drop (unat imm) str))))
           (ir s) s = Inr (ok, s2)"
    by (auto simp: exec_match_range_def Let_def split: sum.splits if_splits)
  with e have "failure P s2 = Inr s1
      \<or> (\<exists>s3. s1 = s3 \<and> invoked (semantics' s3) = invoked (semantics' s2)
                \<and> max_input' s3 = max_input' s2)"
    by (auto simp: exec_match_range_def Let_def split: if_splits)
  with av show ?thesis by (rule after_available_no_retreat)
qed

lemma no_retreat_upd:
    "no_retreat s (input'_update f1 s1) = no_retreat s s1"
    "no_retreat s (registers'_update f2 s1) = no_retreat s s1"
    "no_retreat s (parsing'_update f3 s1) = no_retreat s s1"
    "no_retreat s (reading'_update f4 s1) = no_retreat s s1"
    "no_retreat s (cut_deferred'_update f5 s1) = no_retreat s s1"
    "no_retreat s (cut_frame'_update f6 s1) = no_retreat s s1"
    "no_retreat s (sources'_update f7 s1) = no_retreat s s1"
    "no_retreat s (stack_frames'_update f8 s1) = no_retreat s s1"
    "no_retreat s (backtrack_stack'_update f9 s1) = no_retreat s s1"
    "no_retreat s (call_stack'_update f10 s1) = no_retreat s s1"
    "no_retreat s (capture_stack'_update f11 s1) = no_retreat s s1"
    "no_retreat s (lrmemo_stack'_update f12 s1) = no_retreat s s1"
    "no_retreat s (ir_update f13 s1) = no_retreat s s1"
    "no_retreat s (cr_update f14 s1) = no_retreat s s1"
    "no_retreat s (lr_update f15 s1) = no_retreat s s1"
    "no_retreat s (rc_update f16 s1) = no_retreat s s1"
    "no_retreat s (pc_update f17 s1) = no_retreat s s1"
    "no_retreat s (fc_update f18 s1) = no_retreat s s1"
    "no_retreat s (result_update f19 s1) = no_retreat s s1"
    "no_retreat s (finished_update f20 s1) = no_retreat s s1"
    "no_retreat (input'_update f21 s) s1 = no_retreat s s1"
    "no_retreat (registers'_update f22 s) s1 = no_retreat s s1"
    "no_retreat (parsing'_update f23 s) s1 = no_retreat s s1"
    "no_retreat (reading'_update f24 s) s1 = no_retreat s s1"
    "no_retreat (cut_deferred'_update f25 s) s1 = no_retreat s s1"
    "no_retreat (cut_frame'_update f26 s) s1 = no_retreat s s1"
    "no_retreat (sources'_update f27 s) s1 = no_retreat s s1"
    "no_retreat (stack_frames'_update f28 s) s1 = no_retreat s s1"
    "no_retreat (backtrack_stack'_update f29 s) s1 = no_retreat s s1"
    "no_retreat (call_stack'_update f30 s) s1 = no_retreat s s1"
    "no_retreat (capture_stack'_update f31 s) s1 = no_retreat s s1"
    "no_retreat (lrmemo_stack'_update f32 s) s1 = no_retreat s s1"
    "no_retreat (ir_update f33 s) s1 = no_retreat s s1"
    "no_retreat (cr_update f34 s) s1 = no_retreat s s1"
    "no_retreat (lr_update f35 s) s1 = no_retreat s s1"
    "no_retreat (rc_update f36 s) s1 = no_retreat s s1"
    "no_retreat (pc_update f37 s) s1 = no_retreat s s1"
    "no_retreat (fc_update f38 s) s1 = no_retreat s s1"
    "no_retreat (result_update f39 s) s1 = no_retreat s s1"
    "no_retreat (finished_update f40 s) s1 = no_retreat s s1"
  by (simp_all add: no_retreat_def)

lemma no_retreat_sem:
  "invoked sem = invoked (semantics' s1) \<Longrightarrow> no_retreat s (s1\<lparr>semantics' := sem\<rparr>) = no_retreat s s1"
  "invoked sem = invoked (semantics' s) \<Longrightarrow> no_retreat (s\<lparr>semantics' := sem\<rparr>) s1 = no_retreat s s1"
  by (simp_all add: no_retreat_def)

lemma invoked_snd:
  "invoked (snd (restore_responses_after n rs sem)) = invoked sem"
  "invoked (snd (drop_responses_after n sem)) = invoked sem"
  "invoked (snd (push_response d a c sem)) = invoked sem"
  "invoked (snd (push_capture_response d a r sem)) = invoked sem"
  by (simp_all add: restore_responses_after_def drop_responses_after_def push_response_def
        push_capture_response_def Let_def)

lemmas no_retreat_simps = no_retreat_upd no_retreat_sem invoked_snd no_retreat_refl split_def Let_def

lemma no_retreat_popI:
  "pop_stack_frame P which s0 = Inr s1 \<Longrightarrow> no_retreat s s0 \<Longrightarrow> no_retreat s s1"
  by (drule pop_stack_frame_no_retreat) (rule no_retreat_trans)

lemma no_retreat_failureI:
  "failure P s0 = Inr s1 \<Longrightarrow> no_retreat s s0 \<Longrightarrow> no_retreat s s1"
  by (drule failure_no_retreat) (rule no_retreat_trans)

lemma no_retreat_acceptI:
  "accept P s0 = Inr s1 \<Longrightarrow> no_retreat s s0 \<Longrightarrow> no_retreat s s1"
  by (drule accept_no_retreat) (rule no_retreat_trans)

lemma exec_choice_no_retreat: "exec_choice imm off s = Inr s1 \<Longrightarrow> no_retreat s s1"
  by (auto simp: exec_choice_def no_retreat_simps)

lemma exec_jump_no_retreat: "exec_jump off s = Inr s1 \<Longrightarrow> no_retreat s s1"
  by (auto simp: exec_jump_def no_retreat_simps)

lemma exec_newline_no_retreat: "exec_newline s = Inr s1 \<Longrightarrow> no_retreat s s1"
  by (auto simp: exec_newline_def no_retreat_simps)

lemma exec_begin_capture_no_retreat: "exec_begin_capture s = Inr s1 \<Longrightarrow> no_retreat s s1"
  by (auto simp: exec_begin_capture_def no_retreat_simps)

lemma exec_action_no_retreat: "exec_action imm s = Inr s1 \<Longrightarrow> no_retreat s s1"
  by (auto simp: exec_action_def no_retreat_simps)

lemma exec_fail_no_retreat: "exec_fail P imm s = Inr s1 \<Longrightarrow> no_retreat s s1"
  by (auto simp: exec_fail_def no_retreat_simps elim!: no_retreat_failureI)

lemma exec_commit_no_retreat: "exec_commit P alt off s = Inr s1 \<Longrightarrow> no_retreat s s1"
proof (cases "stack_frames' s = [] \<or> hd (stack_frames' s) \<noteq> sf_backtrack")
  case True
  assume "exec_commit P alt off s = Inr s1"
  with True have "failure P s = Inr s1" by (auto simp: exec_commit_def)
  then show ?thesis by (rule failure_no_retreat)
next
  case False
  assume e: "exec_commit P alt off s = Inr s1"
  show ?thesis
  proof (cases "backtrack_stack' s")
    case Nil
    with e False show ?thesis
      by (auto simp: exec_commit_def exec_jump_def pop_stack_frame_def split: if_splits)
  next
    case (Cons b bs)
    obtain i c l r p where b: "b = (i, c, l, r, p)" by (cases b) auto
    consider "alt = commit_partial" | "alt \<noteq> commit_partial" "alt = commit_back"
      | "alt \<noteq> commit_partial" "alt \<noteq> commit_back" by blast
    then show ?thesis
    proof cases
      case 1
      with e False Cons b show ?thesis
        by (auto simp: exec_commit_def exec_jump_def no_retreat_simps)
    next
      case 2
      with e False Cons b obtain s2 where
        p: "pop_stack_frame P sf_backtrack (s\<lparr>ir := i, cr := c, lr := l\<rparr>) = Inr s2"
        and s1: "s1 = s2\<lparr>pc := pc s2 + off\<rparr>"
        by (auto simp: exec_commit_def exec_jump_def split: sum.splits)
      from p have "no_retreat s s2"
        by (rule no_retreat_popI) (simp add: no_retreat_simps)
      with s1 show ?thesis by (simp add: no_retreat_simps)
    next
      case 3
      with e False Cons b obtain s2 where
        p: "pop_stack_frame P sf_backtrack s = Inr s2"
        and s1: "s1 = s2\<lparr>pc := pc s2 + off\<rparr>"
        by (auto simp: exec_commit_def exec_jump_def split: sum.splits)
      from p have "no_retreat s s2"
        by (rule no_retreat_popI) (simp add: no_retreat_simps)
      with s1 show ?thesis by (simp add: no_retreat_simps)
    qed
  qed
qed

lemma exec_call_no_retreat: "exec_call P imm off s = Inr s1 \<Longrightarrow> no_retreat s s1"
proof (cases "imm \<noteq> 0")
  case False
  assume "exec_call P imm off s = Inr s1"
  with False show ?thesis by (auto simp: exec_call_def no_retreat_simps)
next
  case True
  assume e: "exec_call P imm off s = Inr s1"
  show ?thesis
  proof (cases "find_memo (lrmemo_stack' s) (ir s) (pc s + off)")
    case None
    with e True show ?thesis by (auto simp: exec_call_def no_retreat_simps)
  next
    case (Some memo)
    show ?thesis
    proof (cases "subj_ir (sa memo) = lrfailcode \<or> imm < prec memo")
      case True
      with e Some \<open>imm \<noteq> 0\<close> have "failure P s = Inr s1" by (simp add: exec_call_def)
      then show ?thesis by (rule failure_no_retreat)
    next
      case False
      with e Some \<open>imm \<noteq> 0\<close> show ?thesis
        by (auto simp: exec_call_def no_retreat_simps)
    qed
  qed
qed

lemma exec_ret_no_retreat: "exec_ret P s = Inr s1 \<Longrightarrow> no_retreat s s1"
proof (cases "stack_frames' s = []")
  case True
  assume "exec_ret P s = Inr s1"
  with True have "failure P s = Inr s1" by (simp add: exec_ret_def)
  then show ?thesis by (rule failure_no_retreat)
next
  case False
  assume e: "exec_ret P s = Inr s1"
  show ?thesis
  proof (cases "hd (stack_frames' s)")
    case sf_backtrack
    with e False have "failure P s = Inr s1" by (simp add: exec_ret_def)
    then show ?thesis by (rule failure_no_retreat)
  next
    case sf_capture
    with e False have "failure P s = Inr s1" by (simp add: exec_ret_def)
    then show ?thesis by (rule failure_no_retreat)
  next
    case sf_call
    with e False obtain p where "pop_stack_frame P sf_call (s\<lparr>pc := p\<rparr>) = Inr s1"
      by (auto simp: exec_ret_def split: list.splits)
    then show ?thesis by (rule no_retreat_popI) (simp add: no_retreat_simps)
  next
    case sf_lrcall
    show ?thesis
    proof (cases "lrmemo_stack' s")
      case Nil
      with e False sf_lrcall show ?thesis by (simp add: exec_ret_def)
    next
      case (Cons memo memos)
      show ?thesis
      proof (cases "subj_ir (sa memo) = lrfailcode \<or> subj_ir (sa memo) < ir s")
        case True
        with e \<open>stack_frames' s \<noteq> []\<close> sf_lrcall Cons show ?thesis
          by (auto simp: exec_ret_def no_retreat_simps)
      next
        case False
        with e \<open>stack_frames' s \<noteq> []\<close> sf_lrcall Cons have
          "pop_stack_frame P sf_lrcall
             (s\<lparr>ir := subj_ir (sa memo), cr := subj_cr (sa memo), lr := subj_lr (sa memo),
                pc := pcr memo,
                rc := fst (restore_responses_after (rcr memo) (responses memo) (semantics' s)),
                semantics' := snd (restore_responses_after (rcr memo) (responses memo) (semantics' s))\<rparr>)
           = Inr s1"
          by (simp add: exec_ret_def split_def)
        then show ?thesis by (rule no_retreat_popI) (simp add: no_retreat_simps)
      qed
    qed
  qed
qed

lemma exec_accept_no_retreat: "exec_accept P alt s = Inr s1 \<Longrightarrow> no_retreat s s1"
proof (cases "capture_stack' s \<noteq> [] \<or> lrmemo_stack' s \<noteq> []")
  case True
  assume "exec_accept P alt s = Inr s1"
  with True show ?thesis by (auto simp: exec_accept_def no_retreat_simps)
next
  case False
  assume e: "exec_accept P alt s = Inr s1"
  with False obtain s2 where a: "accept P (s\<lparr>cut_deferred' := False\<rparr>) = Inr s2"
    and s1: "s1 = s2\<lparr>result := (alt = accept_final), finished := (alt = accept_final)\<rparr>"
    by (auto simp: exec_accept_def Let_def split: sum.splits)
  from a have "no_retreat s s2" by (rule no_retreat_acceptI) (simp add: no_retreat_simps)
  with s1 show ?thesis by (simp add: no_retreat_simps)
qed

lemma exec_end_capture_no_retreat: "exec_end_capture P imm s = Inr s1 \<Longrightarrow> no_retreat s s1"
proof -
  assume e: "exec_end_capture P imm s = Inr s1"
  show ?thesis
  proof (cases "stack_frames' s = [] \<or> hd (stack_frames' s) \<noteq> sf_capture")
    case True
    with e have "failure P s = Inr s1" by (auto simp: exec_end_capture_def)
    then show ?thesis by (rule failure_no_retreat)
  next
    case False
    with e obtain s2 where p: "pop_stack_frame P sf_capture s = Inr s2"
      and r: "failure P s2 = Inr s1
              \<or> (invoked (semantics' s1) = invoked (semantics' s2) \<and> max_input' s1 = max_input' s2)"
      by (auto simp: exec_end_capture_def split: list.splits sum.splits if_splits prod.splits
               dest: invoked_push_capture_response)
    from r have "no_retreat s2 s1"
      by (auto dest: failure_no_retreat intro: no_retreat_same)
    with pop_stack_frame_no_retreat [OF p] show ?thesis by (rule no_retreat_trans)
  qed
qed

lemma exec_predicate_no_retreat: "exec_predicate P imm s = Inr s1 \<Longrightarrow> no_retreat s s1"
proof -
  assume e: "exec_predicate P imm s = Inr s1"
  define s0 where "s0 = note_max_input (save_registers s)"
  have a: "no_retreat s s0"
    unfolding s0_def
    by (rule no_retreat_pre [OF _ _ note_max_input_no_retreat])
       (simp_all add: save_registers_def)
  from e have nl: "\<not> length (predicates P) \<le> unat imm"
    by (auto simp: exec_predicate_def Let_def)
  from e nl obtain accepted regs enq pushed where
    pr: "(predicates P ! unat imm) (input' s0) (registers' s0) =
           Inr (accepted, regs, enq, pushed)"
    unfolding exec_predicate_def s0_def [symmetric] Let_def
    by (cases "(predicates P ! unat imm) (input' s0) (registers' s0)") auto
  define s3 where "s3 = (load_registers (s0\<lparr>registers' := regs, input' := input' s0 @ enq,
                                           sources' := pushed @ sources' s0\<rparr>))
                       \<lparr>semantics' := pop_responses_after (reg_rc regs) (semantics' s0)\<rparr>"
  from e exec_predicate_unfold [OF pr s0_def nl]
  have r: "failure P s3 = Inr s1 \<or> s1 = s3"
    unfolding s3_def [symmetric] by (cases accepted) auto
  have "no_retreat s0 s3"
    by (simp add: s3_def load_registers_def no_retreat_simps)
  with a have "no_retreat s s3" by (rule no_retreat_trans)
  with r show ?thesis
    by (auto elim: no_retreat_failureI)
qed

lemma exec_no_retreat: "exec X P opb alt imm off str s = Inr s1 \<Longrightarrow> no_retreat s s1"
  by (simp add: exec_def split: option.splits opcode.splits)
     (erule exec_match_no_retreat exec_match_any_no_retreat exec_match_class_no_retreat
        exec_match_range_no_retreat exec_choice_no_retreat exec_commit_no_retreat
        exec_jump_no_retreat exec_call_no_retreat exec_ret_no_retreat exec_fail_no_retreat
        exec_accept_no_retreat exec_newline_no_retreat exec_predicate_no_retreat
        exec_action_no_retreat exec_begin_capture_no_retreat exec_end_capture_no_retreat)+

lemma step_no_retreat: "step X P s = Inr s1 \<Longrightarrow> no_retreat s s1"
  by (auto simp: step_def split: sum.splits prod.splits
           dest!: exec_no_retreat elim: no_retreat_pre [rotated 2])

lemma steps_no_retreat: "steps n X P s = Inr s1 \<Longrightarrow> no_retreat s s1"
proof (induction n arbitrary: s)
  case 0
  then show ?case by (simp add: no_retreat_refl)
next
  case (Suc n)
  show ?case
  proof (cases "finished s")
    case True
    with Suc.prems show ?thesis by (simp add: no_retreat_refl)
  next
    case False
    with Suc.prems obtain s2 where st: "step X P s = Inr s2" and rest: "steps n X P s2 = Inr s1"
      by (auto split: sum.splits)
    from step_no_retreat [OF st] Suc.IH [OF rest] show ?thesis by (rule no_retreat_trans)
  qed
qed

lemma run_no_retreat:
  assumes "run X P s = Some (Inr s1)"
  shows "no_retreat s s1"
proof -
  have "\<forall>t. y = Inr t \<longrightarrow> no_retreat (snd ((X, P), s)) t" if "run X P s = Some y" for y
  proof (rule run.raw_induct
           [where Pa = "\<lambda>a y. \<forall>t. y = Inr t \<longrightarrow> no_retreat (snd a) t", OF _ that])
    fix f X' P' s' y'
    assume IH: "\<And>a b c y. f a b c = Some y \<Longrightarrow> \<forall>t. y = Inr t \<longrightarrow> no_retreat (snd ((a, b), c)) t"
       and eq: "(if finished s' then Some (Inr s')
                 else case step X' P' s' of Inl e \<Rightarrow> Some (Inl e) | Inr s1 \<Rightarrow> f X' P' s1) = Some y'"
    show "\<forall>t. y' = Inr t \<longrightarrow> no_retreat (snd ((X', P'), s')) t"
    proof (cases "finished s'")
      case True
      with eq show ?thesis by (auto simp: no_retreat_refl)
    next
      case False
      show ?thesis
      proof (cases "step X' P' s'")
        case (Inl e')
        with eq False show ?thesis by auto
      next
        case (Inr s2)
        with eq False have "f X' P' s2 = Some y'" by simp
        from IH [OF this] have "\<forall>t. y' = Inr t \<longrightarrow> no_retreat s2 t" by simp
        with step_no_retreat [OF Inr] show ?thesis
          by (auto intro: no_retreat_trans)
      qed
    qed
  qed
  from this [OF assms] show ?thesis by simp
qed

text \<open>
  C8, as stated, fails across a committed cut: \<^verbatim>\<open>parser::accept\<close> sets \<^verbatim>\<open>max_input_.ir\<close> to
  0, so the next failure overwrites the recorded position whatever it was. On \<open>abc\<close> the
  lookahead of the grammar above reaches column 4; after the cut the mismatch of \<open>x\<close> at
  column 3 replaces it, and the parse returns false with \<^verbatim>\<open>max_input_position()\<close> at
  column 3.
\<close>

theorem max_input_position_retreats:
  "map_sum id max_input_position
     (steps 7 ascii cut_lookahead_program (parse_entry (enqueue ''abc'' new_parser))) =
     Inr \<lparr>column = 4, line = 1\<rparr>
   \<and> map_sum id (\<lambda>s. (finished s, max_input_position s))
     (steps 11 ascii cut_lookahead_program (parse_entry (enqueue ''abc'' new_parser))) =
     Inr (True, \<lparr>column = 3, line = 1\<rparr>)
   \<and> map_option (map_sum id (\<lambda>(b, s). (b, max_input_position s)))
       (lug_parse ascii ''abc'' cut_lookahead_program) =
     Some (Inr (False, \<lparr>column = 3, line = 1\<rparr>))"
proof -
  have a: "map_sum id max_input_position
     (steps 7 ascii cut_lookahead_program (parse_entry (enqueue ''abc'' new_parser))) =
     Inr \<lparr>column = 4, line = 1\<rparr>"
    by code_simp
  have b: "map_sum id (\<lambda>s. (finished s, result s, max_input_position s))
     (steps 11 ascii cut_lookahead_program (parse_entry (enqueue ''abc'' new_parser))) =
     Inr (True, False, \<lparr>column = 3, line = 1\<rparr>)"
    by code_simp
  then obtain s1 where s1: "steps 11 ascii cut_lookahead_program (parse_entry (enqueue ''abc'' new_parser)) = Inr s1"
      "finished s1" "\<not> result s1" "max_input_position s1 = \<lparr>column = 3, line = 1\<rparr>"
    by (cases "steps 11 ascii cut_lookahead_program (parse_entry (enqueue ''abc'' new_parser))") auto
  have np: "\<not> parsing' (enqueue ''abc'' new_parser)"
    by (simp add: enqueue_def new_parser_def)
  have ne: "instructions cut_lookahead_program \<noteq> []"
    by (simp add: cut_lookahead_program_def)
  from parse_by_steps [OF s1(1) s1(2) np ne] s1(3,4)
  have c: "map_option (map_sum id (\<lambda>(b, s). (b, max_input_position s)))
       (lug_parse ascii ''abc'' cut_lookahead_program) =
     Some (Inr (False, \<lparr>column = 3, line = 1\<rparr>))"
    by (simp add: lug_parse_def max_input_position_def)
  from s1 have b': "map_sum id (\<lambda>s. (finished s, max_input_position s))
     (steps 11 ascii cut_lookahead_program (parse_entry (enqueue ''abc'' new_parser))) =
     Inr (True, \<lparr>column = 3, line = 1\<rparr>)"
    by simp
  from a b' c show ?thesis by simp
qed

text \<open>
  C8, amended. Between two states of a run with the same callbacks invoked (no cut has
  committed in between), \<^verbatim>\<open>max_input_\<close> and with it \<^verbatim>\<open>max_input_position()\<close> are unchanged,
  or the recorded byte index \<^verbatim>\<open>max_input_.ir\<close> has strictly grown.
\<close>

theorem max_input_advances_between_cuts:
  assumes "steps n X P s = Inr s1 \<or> run X P s = Some (Inr s1)"
      and "invoked (semantics' s1) = invoked (semantics' s)"
  shows "(max_input' s1 = max_input' s \<and> max_input_position s1 = max_input_position s)
         \<or> subj_ir (max_input' s) < subj_ir (max_input' s1)"
proof -
  from assms(1) have "no_retreat s s1"
    by (auto dest: steps_no_retreat run_no_retreat)
  with assms(2) show ?thesis
    by (auto simp: no_retreat_def max_input_position_def)
qed

theorem max_input_advances_witness:
  "subj_ir (max_input' (parse_entry (enqueue ''abc'' new_parser))) <
   subj_ir (max_input' cut_lookahead_behind_lookahead)"
proof -
  have i: "invoked (semantics' cut_lookahead_behind_lookahead) =
           invoked (semantics' (parse_entry (enqueue ''abc'' new_parser)))"
    by (simp add: cut_lookahead_behind_lookahead_def)
  have d: "max_input' cut_lookahead_behind_lookahead \<noteq>
           max_input' (parse_entry (enqueue ''abc'' new_parser))"
    by (simp add: cut_lookahead_behind_lookahead_def parse_entry_def load_registers_def
          enqueue_def new_parser_def)
  from max_input_advances_between_cuts
         [OF disjI1 [OF cut_lookahead_reaches_behind_lookahead] i] d
  show ?thesis by blast
qed

subsection \<open>Captures across a cut\<close>

text \<open>
  What \<^verbatim>\<open>parser::accept\<close> does to the buffer and the registers when it returns.
\<close>

lemma accept_erases_prefix:
  assumes "accept P s = Inr s1"
  shows "input' s1 = drop (unat (ir s)) (input' s) \<and> ir s1 = 0 \<and> rc s1 = 0
         \<and> subj_ir (max_input' s1) = 0 \<and> cr s1 = cr s \<and> lr s1 = lr s
         \<and> subj_cr (max_input' s1) = subj_cr (max_input' s)
         \<and> subj_lr (max_input' s1) = subj_lr (max_input' s)
         \<and> cut_frame' s1 = length (stack_frames' s) \<and> \<not> cut_deferred' s1"
  using assms
  by (auto simp: accept_def save_registers_def Let_def split: sum.splits)

text \<open>
  C10. The erasure and the resets are as stated, but not every byte index produced
  after the cut is relative to the truncated buffer. \<^verbatim>\<open>end_capture\<close> reads \<open>ir0\<close> from the
  Capture frame and \<open>ir1\<close> from \<open>ir\<close>, then pops the frame, which runs the deferred accept
  and erases the buffer, and only then pushes the range \<open>(ir0, ir1 - ir0)\<close>. On \<open>xab\<close> the
  range pushed is \<open>(1, 2)\<close> while the buffer is empty and \<open>ir\<close> is 0, and the final accept
  leaves \<^verbatim>\<open>lug::parse\<close> with \<^verbatim>\<open>std::out_of_range\<close> from \<^verbatim>\<open>substr\<close>.
\<close>

theorem capture_across_cut_raises:
  "map_sum id (\<lambda>s. (input' s, ir s, captures' (semantics' s)))
     (steps 7 ascii capture_cut_program (parse_entry (enqueue ''xab'' new_parser))) =
     Inr ([], 0, [\<lparr>range_index = 1, range_size = 2,
                    range_start = \<lparr>column = 2, line = 1\<rparr>,
                    range_end = \<lparr>column = 4, line = 1\<rparr>\<rparr>])
   \<and> lug_parse ascii ''xab'' capture_cut_program = Some (Inl std_out_of_range)"
proof -
  have a: "map_sum id (\<lambda>s. (input' s, ir s, captures' (semantics' s)))
     (steps 7 ascii capture_cut_program (parse_entry (enqueue ''xab'' new_parser))) =
     Inr ([], 0, [\<lparr>range_index = 1, range_size = 2,
                    range_start = \<lparr>column = 2, line = 1\<rparr>,
                    range_end = \<lparr>column = 4, line = 1\<rparr>\<rparr>])"
    by code_simp
  have b: "steps 9 ascii capture_cut_program (parse_entry (enqueue ''xab'' new_parser)) =
             Inl std_out_of_range"
    by code_simp
  have np: "\<not> parsing' (enqueue ''xab'' new_parser)"
    by (simp add: enqueue_def new_parser_def)
  have ne: "instructions capture_cut_program \<noteq> []"
    by (simp add: capture_cut_program_def)
  from parse_by_steps_raised [OF b np ne] a show ?thesis
    by (simp add: lug_parse_def)
qed

end
